theory Spec2Isabelle
  imports Complex_Main "HOL-Library.Log_Nat"
begin

section \<open>Numbers\<close>

subsection \<open>Doubles\<close>

text \<open>
  A JavaScript \<open>number\<close> is an IEEE 754 double: a finite value \<open>Num q\<close>, where \<open>q\<close> is the
  rational the double stands for, one of the two infinities, or \<open>NaN\<close>. The zeros \<open>+0\<close> and
  \<open>-0\<close> are the one value \<open>Num 0\<close>: the comparisons of the language do not tell them apart,
  and the functions modelled here divide by no computed value.

  \<open>round_to p k emax x\<close> rounds the rational \<open>x\<close> to the nearest number with a mantissa of
  \<open>p\<close> bits and an exponent of at least \<open>-k\<close>, a tie going to the even mantissa, and to an
  infinity when the rounded value reaches \<open>2 ^ emax\<close>. The exponent of the last bit of the
  mantissa is \<open>expo_of p k x\<close>: the \<open>e\<close> with \<open>2 ^ (e + p - 1) \<le> |x| < 2 ^ (e + p)\<close>, or
  \<open>-k\<close> when that is larger (\<open>floorlog 2 n\<close> is the number of bits of \<open>n\<close>). For a double,
  \<open>p = 53\<close>, \<open>k = 1074\<close> and \<open>emax = 1024\<close>: \<open>fl x\<close> is the double nearest to \<open>x\<close>.
\<close>

datatype double = Num rat | PInf | NInf | NaN

definition expo_of :: "nat \<Rightarrow> nat \<Rightarrow> rat \<Rightarrow> int" where
  "expo_of p k x = max (int (floorlog 2 (nat \<lfloor>\<bar>x\<bar> * 2 ^ k\<rfloor>)) - int (k + p)) (- int k)"

definition round_even :: "rat \<Rightarrow> int" where
  "round_even q =
     (let f = \<lfloor>q\<rfloor>; r = q - of_int f
      in if r < 1 / 2 then f else if 1 / 2 < r then f + 1 else if even f then f else f + 1)"

definition round_to :: "nat \<Rightarrow> nat \<Rightarrow> nat \<Rightarrow> rat \<Rightarrow> double" where
  "round_to p k emax x =
     (let e = expo_of p k x;
          y = of_int (round_even (x / 2 powi e)) * 2 powi e
      in if 2 ^ emax \<le> \<bar>y\<bar> then (if 0 < x then PInf else NInf) else Num y)"

definition fl :: "rat \<Rightarrow> double" where
  "fl = round_to 53 1074 1024"

subsection \<open>Arithmetic and comparison\<close>

text \<open>
  The operators \<open>+\<close>, \<open>-\<close>, \<open>*\<close>, \<open>/\<close>, \<open><\<close> and \<open><=\<close> of the language on doubles: the
  exact result of two finite operands, rounded by \<open>fl\<close>, and the results IEEE 754 gives for
  infinite operands and for \<open>NaN\<close>. A finite number divided by zero is written for the
  zero \<open>+0\<close>. (The class that provides the notation \<open>x / y\<close> asks for \<open>inverse\<close> as well.)
\<close>

instantiation double :: "{plus, minus, times, inverse, ord}"
begin

fun plus_double :: "double \<Rightarrow> double \<Rightarrow> double" where
  "Num a + Num b = fl ((a::rat) + b)"
| "NaN + y = NaN"
| "x + NaN = NaN"
| "PInf + NInf = NaN"
| "NInf + PInf = NaN"
| "PInf + y = PInf"
| "x + PInf = PInf"
| "NInf + y = NInf"
| "x + NInf = NInf"

fun minus_double :: "double \<Rightarrow> double \<Rightarrow> double" where
  "Num a - Num b = fl ((a::rat) - b)"
| "NaN - y = NaN"
| "x - NaN = NaN"
| "PInf - PInf = NaN"
| "NInf - NInf = NaN"
| "PInf - y = PInf"
| "x - NInf = PInf"
| "NInf - y = NInf"
| "x - PInf = NInf"

fun times_double :: "double \<Rightarrow> double \<Rightarrow> double" where
  "Num a * Num b = fl ((a::rat) * b)"
| "NaN * y = NaN"
| "x * NaN = NaN"
| "PInf * Num b = (if b = 0 then NaN else if 0 < b then PInf else NInf)"
| "NInf * Num b = (if b = 0 then NaN else if 0 < b then NInf else PInf)"
| "Num a * PInf = (if a = 0 then NaN else if 0 < a then PInf else NInf)"
| "Num a * NInf = (if a = 0 then NaN else if 0 < a then NInf else PInf)"
| "PInf * PInf = PInf"
| "PInf * NInf = NInf"
| "NInf * PInf = NInf"
| "NInf * NInf = PInf"

fun divide_double :: "double \<Rightarrow> double \<Rightarrow> double" where
  "divide_double (Num a) (Num b) =
     (if b = 0 then (if a = 0 then NaN else if 0 < a then PInf else NInf) else fl (a / b))"
| "divide_double NaN y = NaN"
| "divide_double x NaN = NaN"
| "divide_double (Num a) PInf = Num 0"
| "divide_double (Num a) NInf = Num 0"
| "divide_double PInf (Num b) = (if 0 \<le> b then PInf else NInf)"
| "divide_double NInf (Num b) = (if 0 \<le> b then NInf else PInf)"
| "divide_double PInf y = NaN"
| "divide_double NInf y = NaN"

definition inverse_double :: "double \<Rightarrow> double" where
  "inverse_double (x::double) = divide (Num 1) x"

fun less_double :: "double \<Rightarrow> double \<Rightarrow> bool" where
  "Num a < Num b = ((a::rat) < b)"
| "NaN < y = False"
| "x < NaN = False"
| "x < NInf = False"
| "PInf < y = False"
| "NInf < y = True"
| "x < PInf = True"

fun less_eq_double :: "double \<Rightarrow> double \<Rightarrow> bool" where
  "Num a \<le> Num b = ((a::rat) \<le> b)"
| "NaN \<le> y = False"
| "x \<le> NaN = False"
| "NInf \<le> y = True"
| "x \<le> PInf = True"
| "x \<le> NInf = False"
| "PInf \<le> y = False"

instance ..

end

subsection \<open>The finite numbers the program is given\<close>

text \<open>
  The times, indices and years the functions are given are finite: such a number is
  modelled by the rational it stands for, of type \<open>number\<close>, and enters the arithmetic as
  \<open>Num\<close> of it. A rational \<open>x\<close> is the value of a double when \<open>is_double x\<close>. A decimal
  literal of the source or of the tests, such as \<open>0.844\<close>, denotes the double nearest to
  it: \<open>double_of (844 / 1000)\<close>. (No literal of the program is large enough to be infinite.)
\<close>

type_synonym number = rat

definition is_double :: "rat \<Rightarrow> bool" where
  "is_double x = (fl x = Num x)"

definition double_of :: "rat \<Rightarrow> number" where
  "double_of q = (case fl q of Num y \<Rightarrow> y | _ \<Rightarrow> 0)"

section \<open>Data model (src/lib/types.ts)\<close>

text \<open>
  A JavaScript string is a \<^typ>\<open>string\<close>, one \<^typ>\<open>char\<close> per code unit below 256. The
  numbers of the records are finite numbers that are given (\<open>number\<close>), except the two
  that \<open>calculatePaxTime\<close> computes, which are doubles.
\<close>

record SoloClass =
  code :: string
  name :: string
  paxIndex :: number
  isActive :: bool

text \<open>
  The fields \<open>id\<close> and \<open>name\<close> of a group are \<open>group_id\<close> and \<open>group_name\<close> here
  (\<open>id\<close> is the identity function of HOL, \<open>name\<close> is a field of \<open>SoloClass\<close>).
\<close>

record SoloClassGroup =
  group_id :: string
  group_name :: string
  description :: string
  classes :: "SoloClass list"

text \<open>
  \<open>indexType\<close> has the TypeScript type \<open>'Solo' | 'ProSolo'\<close>, which is erased at run
  time: the validator tests the string. \<open>classesByCode\<close> is the list of the entries of the
  object; a key written twice is one property of the object.
\<close>

record PaxIndex =
  year :: number
  indexType :: string
  version :: string
  releaseDate :: string
  lastUpdated :: string
  classGroups :: "SoloClassGroup list"
  classesByCode :: "(string \<times> SoloClass) list"

record PaxCalculationResult =
  inputTime :: number
  inputClass :: SoloClass
  outputTime :: double
  outputClass :: SoloClass
  timeDifference :: double
  isFaster :: bool
  calculatedAt :: string

text \<open>\<open>throw new Error(message)\<close> is the value \<open>Inl (Error message)\<close>.\<close>

datatype error = Error string

section \<open>Built-ins of the language used by the calculator\<close>

subsection \<open>Strings\<close>

text \<open>
  \<open>String.prototype.trim\<close> removes white space and line terminators from both ends;
  among the code units below 256 these are 9 to 13, 32 and 160.
\<close>

definition isWhiteSpace :: "char \<Rightarrow> bool" where
  "isWhiteSpace c = ((of_char c :: nat) \<in> {9, 10, 11, 12, 13, 32, 160})"

definition trim :: "string \<Rightarrow> string" where
  "trim s = rev (dropWhile isWhiteSpace (rev (dropWhile isWhiteSpace s)))"

definition padEnd :: "string \<Rightarrow> nat \<Rightarrow> char \<Rightarrow> string" where
  "padEnd s n c = s @ replicate (n - length s) c"

text \<open>The class \<open>\d\<close> of a regular expression: the ten ASCII digits.\<close>

definition isDigit :: "char \<Rightarrow> bool" where
  "isDigit c = (c \<in> set ''0123456789'')"

text \<open>
  \<open>parseInt\<close> is only ever applied to a capture of \<open>\d+\<close> or to such a capture padded
  with zeros: a string of decimal digits. \<open>digit_value\<close> reads it in base ten, and
  \<open>parseInt\<close> returns the double nearest to that integer (an infinity from 309 digits
  on), and \<open>NaN\<close> for the empty string.
\<close>

definition digit_value :: "string \<Rightarrow> nat" where
  "digit_value s = foldl (\<lambda>n c. 10 * n + (of_char c - of_char CHR ''0'')) 0 s"

definition parseInt :: "string \<Rightarrow> double" where
  "parseInt s = (if s = [] then NaN else fl (of_nat (digit_value s)))"

subsection \<open>Numbers\<close>

text \<open>
  \<open>Number.prototype.toFixed(f)\<close> (ECMAScript 21.1.3.3). For \<open>NaN\<close> and the infinities it
  answers their names. For a finite \<open>x\<close> it writes a sign when \<open>x\<close> is negative and then,
  for \<open>|x|\<close> below \<open>10^21\<close>, the integer \<open>n\<close> for which \<open>n / 10^f - |x|\<close> is as close to
  zero as possible, the larger one if there are two (\<open>nearest\<close>, computed on the exact
  value of the double), written in decimal with at least \<open>f + 1\<close> digits and a point
  before the last \<open>f\<close> (\<open>fixed_digits\<close>). From \<open>10^21\<close> on it hands \<open>|x|\<close> over to
  \<open>Number::toString\<close>, which writes an exponent notation whose digits the standard
  leaves in part to the implementation: that function is the parameter \<open>toString\<close>.
\<close>

definition nearest :: "nat \<Rightarrow> rat \<Rightarrow> nat" where
  "nearest f x = nat \<lfloor>x * 10 ^ f + 1 / 2\<rfloor>"

definition digit_char :: "nat \<Rightarrow> char" where
  "digit_char d = ''0123456789'' ! d"

fun decimal :: "nat \<Rightarrow> string" where
  "decimal n = (if n < 10 then [digit_char n] else decimal (n div 10) @ [digit_char (n mod 10)])"

declare decimal.simps [simp del]

definition fixed_digits :: "nat \<Rightarrow> nat \<Rightarrow> string" where
  "fixed_digits n f =
     (let m = decimal n;
          m = (if f \<noteq> 0 \<and> length m \<le> f then replicate (f + 1 - length m) CHR ''0'' @ m else m);
          k = length m
      in if f \<noteq> 0 then take (k - f) m @ ''.'' @ drop (k - f) m else m)"

definition toFixed :: "(double \<Rightarrow> string) \<Rightarrow> double \<Rightarrow> nat \<Rightarrow> string" where
  "toFixed toString x f =
     (case x of
        NaN \<Rightarrow> ''NaN''
      | PInf \<Rightarrow> ''Infinity''
      | NInf \<Rightarrow> ''-Infinity''
      | Num q \<Rightarrow>
          let s = (if q < 0 then ''-'' else '''')
          in if 10 ^ 21 \<le> \<bar>q\<bar> then s @ toString (Num \<bar>q\<bar>)
             else s @ fixed_digits (nearest f \<bar>q\<bar>) f)"

text \<open>
  \<open>Number(s)\<close> on the strings \<open>toFixed\<close> writes below \<open>10^21\<close>: an optional minus sign,
  digits and, optionally, a point and digits. \<open>unsigned_number\<close> is the rational the
  digits denote in base ten, and \<open>Number\<close> answers the double nearest to it, with its
  sign. \<open>None\<close> stands for every other string.
\<close>

definition unsigned_number :: "string \<Rightarrow> rat option" where
  "unsigned_number u =
     (let whole = takeWhile isDigit u; rest = dropWhile isDigit u
      in if whole = [] then None
         else if rest = [] then Some (of_nat (digit_value whole))
         else if hd rest = CHR ''.'' \<and> tl rest \<noteq> [] \<and> list_all isDigit (tl rest)
           then Some (of_nat (digit_value whole) + of_nat (digit_value (tl rest)) / 10 ^ length (tl rest))
         else None)"

definition StringToNumber :: "string \<Rightarrow> double option" where
  "StringToNumber s =
     (case s of [] \<Rightarrow> None
      | c # u \<Rightarrow> if c = CHR ''-'' then map_option (\<lambda>v. fl (- v)) (unsigned_number u)
                 else map_option fl (unsigned_number s))"

text \<open>
  \<open>Number(x.toFixed(f))\<close>. Below \<open>10^21\<close> it is the double the string \<open>toFixed x f\<close>
  denotes, as \<open>Number_toFixed_denotes\<close> shows below (the string \<open>-0.000\<close> denotes the zero
  \<open>-0\<close>). For \<open>NaN\<close>, the infinities and from \<open>10^21\<close> on, \<open>toFixed\<close> writes what
  \<open>Number::toString\<close> writes for \<open>x\<close>, which \<open>Number\<close> reads back as \<open>x\<close>.
\<close>

definition Number_toFixed :: "double \<Rightarrow> nat \<Rightarrow> double" where
  "Number_toFixed x f =
     (case x of
        Num q \<Rightarrow>
          if 10 ^ 21 \<le> \<bar>q\<bar> then x
          else if q < 0 then fl (- (of_nat (nearest f \<bar>q\<bar>) / 10 ^ f))
          else fl (of_nat (nearest f \<bar>q\<bar>) / 10 ^ f)
      | _ \<Rightarrow> x)"

section \<open>calculatePaxTime\<close>

text \<open>
  The clock reading \<open>new Date().toISOString()\<close> is the parameter \<open>now\<close>. The input time
  and the indices are finite numbers; the product, the quotient and the difference are
  those of doubles.
\<close>

definition calculatePaxTime ::
  "string \<Rightarrow> number \<Rightarrow> SoloClass \<Rightarrow> SoloClass \<Rightarrow> error + PaxCalculationResult" where
  "calculatePaxTime now inputTime' inputClass' outputClass' =
     (if inputTime' \<le> 0 then Inl (Error ''Input time must be greater than 0'')
      else if paxIndex inputClass' \<le> 0 \<or> paxIndex outputClass' \<le> 0
        then Inl (Error ''PAX indices must be greater than 0'')
      else
        let outputTime' = Num inputTime' * (Num (paxIndex inputClass') / Num (paxIndex outputClass'));
            timeDifference' = outputTime' - Num inputTime'
        in Inr \<lparr> inputTime = inputTime',
                 inputClass = inputClass',
                 outputTime = Number_toFixed outputTime' 3,
                 outputClass = outputClass',
                 timeDifference = Number_toFixed timeDifference' 3,
                 isFaster = (timeDifference' < Num 0),
                 calculatedAt = now \<rparr>)"

section \<open>parseTimeString\<close>

subsection \<open>The regular expressions\<close>

text \<open>
  The four expressions of \<open>parseTimeString\<close> are anchored sequences of literal
  characters and captured runs of digits \<open>(\d+)\<close>, \<open>(\d{1,2})\<close>, \<open>(\d{1,3})\<close>.
  \<open>Digits lo hi\<close> is a captured greedy run of at least \<open>lo\<close> and, for \<open>hi = Some h\<close>,
  at most \<open>h\<close> digits. \<open>regex_match\<close> is \<open>String.prototype.match\<close> for such an
  expression: it tries the longest run first and backtracks to shorter ones, and answers
  the match array (the whole match, then the captures) or \<open>None\<close> for \<open>null\<close>.
\<close>

datatype atom = Digits nat "nat option" | Lit char

fun first_some :: "'a option list \<Rightarrow> 'a option" where
  "first_some [] = None"
| "first_some (None # xs) = first_some xs"
| "first_some (Some x # xs) = Some x"

fun match_captures :: "atom list \<Rightarrow> string \<Rightarrow> string list option" where
  "match_captures [] s = (if s = [] then Some [] else None)"
| "match_captures (Lit c # p) s =
     (case s of [] \<Rightarrow> None | x # xs \<Rightarrow> if x = c then match_captures p xs else None)"
| "match_captures (Digits lo hi # p) s =
     (let n = length (takeWhile isDigit s);
          top = (case hi of None \<Rightarrow> n | Some h \<Rightarrow> min h n)
      in first_some
           (map (\<lambda>k. map_option ((#) (take k s)) (match_captures p (drop k s)))
                (rev [lo..<Suc top])))"

definition regex_match :: "atom list \<Rightarrow> string \<Rightarrow> string list option" where
  "regex_match p s = map_option ((#) s) (match_captures p s)"

text \<open>\<open>/^(\d+):(\d{1,2})\.(\d{1,3})$/\<close>\<close>

definition minutesRe :: "atom list" where
  "minutesRe = [Digits 1 None, Lit CHR '':'', Digits 1 (Some 2), Lit CHR ''.'', Digits 1 (Some 3)]"

text \<open>\<open>/^(\d+):(\d{1,2}):(\d{1,2})\.(\d{1,3})$/\<close>\<close>

definition hoursRe :: "atom list" where
  "hoursRe = [Digits 1 None, Lit CHR '':'', Digits 1 (Some 2), Lit CHR '':'', Digits 1 (Some 2),
              Lit CHR ''.'', Digits 1 (Some 3)]"

text \<open>\<open>/^(\d+)\.(\d{1,3})$/\<close>\<close>

definition decimalRe :: "atom list" where
  "decimalRe = [Digits 1 None, Lit CHR ''.'', Digits 1 (Some 3)]"

text \<open>\<open>/^(\d+)$/\<close>\<close>

definition wholeRe :: "atom list" where
  "wholeRe = [Digits 1 None]"

subsection \<open>The language of an expression\<close>

text \<open>
  What it means for a string to match an expression, independently of the search
  \<open>match_captures\<close> performs: \<open>fits p caps s\<close> holds when \<open>s\<close> is the concatenation of
  the literals of \<open>p\<close> and of runs of digits \<open>caps\<close>, each of an admissible length.
  An expression is \<open>separated\<close> when each run of digits is followed by a literal that is
  not a digit, or by the end.
\<close>

definition digit_run :: "nat \<Rightarrow> nat option \<Rightarrow> string \<Rightarrow> bool" where
  "digit_run lo hi d = (list_all isDigit d \<and> lo \<le> length d \<and> (case hi of None \<Rightarrow> True | Some h \<Rightarrow> length d \<le> h))"

fun fits :: "atom list \<Rightarrow> string list \<Rightarrow> string \<Rightarrow> bool" where
  "fits [] caps s = (caps = [] \<and> s = [])"
| "fits (Lit c # p) caps s = (\<exists>s'. s = c # s' \<and> fits p caps s')"
| "fits (Digits lo hi # p) caps s =
     (\<exists>d ds s'. caps = d # ds \<and> s = d @ s' \<and> digit_run lo hi d \<and> fits p ds s')"

fun separated :: "atom list \<Rightarrow> bool" where
  "separated [] = True"
| "separated (Lit c # p) = separated p"
| "separated [Digits lo hi] = True"
| "separated (Digits lo hi # Lit c # p) = (\<not> isDigit c \<and> separated p)"
| "separated (Digits lo hi # Digits lo' hi' # p) = False"

subsection \<open>The parser\<close>

definition parseTimeString :: "string \<Rightarrow> error + double" where
  "parseTimeString timeString =
     (if timeString = [] \<or> trim timeString = [] then Inl (Error ''Time string cannot be empty'')
      else
        let cleaned = trim timeString in
        case regex_match minutesRe cleaned of
          Some minutesMatch \<Rightarrow>
            let minutes = minutesMatch ! 1; seconds = minutesMatch ! 2;
                milliseconds = minutesMatch ! 3;
                totalSeconds = parseInt minutes * Num 60 + parseInt seconds;
                ms = parseInt (padEnd milliseconds 3 CHR ''0'')
            in Inr (totalSeconds + ms / Num 1000)
        | None \<Rightarrow>
        (case regex_match hoursRe cleaned of
          Some hoursMatch \<Rightarrow>
            let hours = hoursMatch ! 1; minutes = hoursMatch ! 2; seconds = hoursMatch ! 3;
                milliseconds = hoursMatch ! 4;
                totalSeconds = parseInt hours * Num 3600 + parseInt minutes * Num 60
                  + parseInt seconds;
                ms = parseInt (padEnd milliseconds 3 CHR ''0'')
            in Inr (totalSeconds + ms / Num 1000)
        | None \<Rightarrow>
        (case regex_match decimalRe cleaned of
          Some decimalMatch \<Rightarrow>
            let seconds = decimalMatch ! 1; milliseconds = decimalMatch ! 2;
                ms = parseInt (padEnd milliseconds 3 CHR ''0'')
            in Inr (parseInt seconds + ms / Num 1000)
        | None \<Rightarrow>
        (case regex_match wholeRe cleaned of
          Some wholeMatch \<Rightarrow> Inr (parseInt (wholeMatch ! 1))
        | None \<Rightarrow> Inl (Error (''Invalid time format: '' @ timeString))))))"

subsection \<open>The four grammars, in the words of the specification\<close>

text \<open>
  \<^item> minutes:seconds.milliseconds: one or more digits, colon, 1 to 2 digits, dot, 1 to 3 digits;
  \<^item> hours:minutes:seconds.milliseconds: digits, colon, 1 to 2 digits, colon, 1 to 2 digits,
    dot, 1 to 3 digits;
  \<^item> seconds.milliseconds: one or more digits, dot, 1 to 3 digits;
  \<^item> whole seconds: one or more digits.
\<close>

definition grammar_minutes :: "string \<Rightarrow> bool" where
  "grammar_minutes s = (\<exists>m sec ms. s = m @ '':'' @ sec @ ''.'' @ ms
      \<and> digit_run 1 None m \<and> digit_run 1 (Some 2) sec \<and> digit_run 1 (Some 3) ms)"

definition grammar_hours :: "string \<Rightarrow> bool" where
  "grammar_hours s = (\<exists>h m sec ms. s = h @ '':'' @ m @ '':'' @ sec @ ''.'' @ ms
      \<and> digit_run 1 None h \<and> digit_run 1 (Some 2) m \<and> digit_run 1 (Some 2) sec
      \<and> digit_run 1 (Some 3) ms)"

definition grammar_decimal :: "string \<Rightarrow> bool" where
  "grammar_decimal s = (\<exists>sec ms. s = sec @ ''.'' @ ms
      \<and> digit_run 1 None sec \<and> digit_run 1 (Some 3) ms)"

definition grammar_whole :: "string \<Rightarrow> bool" where
  "grammar_whole s = digit_run 1 None s"

section \<open>formatTime\<close>

text \<open>The parameter \<open>toString\<close> is that of \<open>toFixed\<close>.\<close>

definition formatTime :: "(double \<Rightarrow> string) \<Rightarrow> double \<Rightarrow> error + string" where
  "formatTime toString seconds =
     (if seconds < Num 0 then Inl (Error ''Time cannot be negative'')
      else Inr (toFixed toString seconds 3))"

section \<open>validatePaxIndex\<close>

text \<open>
  The messages pushed to \<open>errors\<close> and \<open>warnings\<close>, one constructor for each template
  string of the source, with the values the template interpolates:
  \<^item> \<open>InvalidYear y\<close>: \<open>Invalid year: ${y}\<close>
  \<^item> \<open>InvalidIndexType t\<close>: \<open>Invalid index type: ${t}\<close>
  \<^item> \<open>NoClassGroups\<close>: \<open>No class groups found\<close>
  \<^item> \<open>GroupMissingIdOrName g\<close>: \<open>Class group missing id or name: ${JSON.stringify(g)}\<close>
  \<^item> \<open>DuplicateClassCode c\<close>: \<open>Duplicate class code: ${c}\<close>
  \<^item> \<open>ClassMissingCodeOrName c\<close>: \<open>Class missing code or name: ${JSON.stringify(c)}\<close>
  \<^item> \<open>PaxOutsideTypicalRange c x\<close>: \<open>PAX index outside typical range for ${c}: ${x}\<close>
  \<^item> \<open>InvalidPaxIndex c x\<close>: \<open>Invalid PAX index for ${c}: ${x}\<close>
  \<^item> \<open>ClassLookupCountMismatch n m\<close>: \<open>Class lookup count mismatch: ${n} vs ${m}\<close>
\<close>

datatype message =
    InvalidYear number
  | InvalidIndexType string
  | NoClassGroups
  | GroupMissingIdOrName SoloClassGroup
  | DuplicateClassCode string
  | ClassMissingCodeOrName SoloClass
  | PaxOutsideTypicalRange string number
  | InvalidPaxIndex string number
  | ClassLookupCountMismatch nat nat

record PaxValidationResult =
  isValid :: bool
  errors :: "message list"
  warnings :: "message list"
  classCount :: nat
  groupCount :: nat

text \<open>
  The variables the loops of \<open>validatePaxIndex\<close> update: \<open>errors\<close>, \<open>warnings\<close>,
  \<open>classCount\<close> and \<open>seenCodes\<close>.
\<close>

record validation_state =
  v_errors :: "message list"
  v_warnings :: "message list"
  v_classCount :: nat
  seenCodes :: "string set"

text \<open>The body of the inner loop, for one class of a group.\<close>

definition validate_class :: "SoloClass \<Rightarrow> validation_state \<Rightarrow> validation_state" where
  "validate_class soloClass st0 =
     (let st1 = st0\<lparr>v_classCount := v_classCount st0 + 1\<rparr>;
          st2 = (if code soloClass \<in> seenCodes st1
                 then st1\<lparr>v_errors := v_errors st1 @ [DuplicateClassCode (code soloClass)]\<rparr>
                 else st1);
          st3 = st2\<lparr>seenCodes := insert (code soloClass) (seenCodes st2)\<rparr>;
          st4 = (if code soloClass = [] \<or> name soloClass = []
                 then st3\<lparr>v_errors := v_errors st3 @ [ClassMissingCodeOrName soloClass]\<rparr>
                 else st3);
          st5 = (if paxIndex soloClass < double_of (7 / 10) \<or> paxIndex soloClass > 1
                 then st4\<lparr>v_warnings := v_warnings st4 @
                        [PaxOutsideTypicalRange (code soloClass) (paxIndex soloClass)]\<rparr>
                 else st4)
      in if paxIndex soloClass \<le> 0
         then st5\<lparr>v_errors := v_errors st5 @
                [InvalidPaxIndex (code soloClass) (paxIndex soloClass)]\<rparr>
         else st5)"

text \<open>The body of the outer loop: a group without id or name is reported and skipped.\<close>

definition validate_group :: "SoloClassGroup \<Rightarrow> validation_state \<Rightarrow> validation_state" where
  "validate_group grp st =
     (if group_id grp = [] \<or> group_name grp = []
      then st\<lparr>v_errors := v_errors st @ [GroupMissingIdOrName grp]\<rparr>
      else fold validate_class (classes grp) st)"

text \<open>\<open>Object.keys\<close> of the lookup object: each key once.\<close>

definition Object_keys :: "(string \<times> 'a) list \<Rightarrow> string list" where
  "Object_keys obj = remdups (map fst obj)"

definition validatePaxIndex :: "PaxIndex \<Rightarrow> PaxValidationResult" where
  "validatePaxIndex paxIndex' =
     (let e1 = (if year paxIndex' = 0 \<or> year paxIndex' < 2000 \<or> year paxIndex' > 2100
                then [InvalidYear (year paxIndex')] else []);
          e2 = e1 @ (if indexType paxIndex' = [] \<or> indexType paxIndex' \<notin> set [''Solo'', ''ProSolo'']
                then [InvalidIndexType (indexType paxIndex')] else []);
          e3 = e2 @ (if length (classGroups paxIndex') = 0 then [NoClassGroups] else []);
          st = fold validate_group (classGroups paxIndex')
                 \<lparr>v_errors = e3, v_warnings = [], v_classCount = 0, seenCodes = {}\<rparr>;
          n = length (Object_keys (classesByCode paxIndex'));
          errors' = v_errors st @
            (if n \<noteq> v_classCount st then [ClassLookupCountMismatch n (v_classCount st)] else [])
      in \<lparr> isValid = (length errors' = 0),
            errors = errors',
            warnings = v_warnings st,
            classCount = v_classCount st,
            groupCount = length (classGroups paxIndex') \<rparr>)"

subsection \<open>What the loops compute\<close>

text \<open>
  The groups the outer loop does not skip, the classes the inner loop visits, and the
  messages one class and one group contribute, written without the loop state: the
  lemmas below show that the loops compute exactly these.
\<close>

definition group_ok :: "SoloClassGroup \<Rightarrow> bool" where
  "group_ok g = (group_id g \<noteq> [] \<and> group_name g \<noteq> [])"

definition checked_classes :: "PaxIndex \<Rightarrow> SoloClass list" where
  "checked_classes p = concat (map classes (filter group_ok (classGroups p)))"

definition all_classes :: "PaxIndex \<Rightarrow> SoloClass list" where
  "all_classes p = concat (map classes (classGroups p))"

definition class_errors :: "string set \<Rightarrow> SoloClass \<Rightarrow> message list" where
  "class_errors S c =
     (if code c \<in> S then [DuplicateClassCode (code c)] else [])
     @ (if code c = [] \<or> name c = [] then [ClassMissingCodeOrName c] else [])
     @ (if paxIndex c \<le> 0 then [InvalidPaxIndex (code c) (paxIndex c)] else [])"

definition class_warnings :: "SoloClass \<Rightarrow> message list" where
  "class_warnings c =
     (if paxIndex c < double_of (7 / 10) \<or> paxIndex c > 1
      then [PaxOutsideTypicalRange (code c) (paxIndex c)] else [])"

fun errors_from :: "string set \<Rightarrow> SoloClass list \<Rightarrow> message list" where
  "errors_from S [] = []"
| "errors_from S (c # cs) = class_errors S c @ errors_from (insert (code c) S) cs"

fun group_errors_from :: "string set \<Rightarrow> SoloClassGroup list \<Rightarrow> message list" where
  "group_errors_from S [] = []"
| "group_errors_from S (g # gs) =
     (if group_ok g
      then errors_from S (classes g) @ group_errors_from (S \<union> set (map code (classes g))) gs
      else GroupMissingIdOrName g # group_errors_from S gs)"

definition header_errors :: "PaxIndex \<Rightarrow> message list" where
  "header_errors p =
     (if year p = 0 \<or> year p < 2000 \<or> year p > 2100 then [InvalidYear (year p)] else [])
     @ (if indexType p = [] \<or> indexType p \<notin> set [''Solo'', ''ProSolo'']
        then [InvalidIndexType (indexType p)] else [])
     @ (if length (classGroups p) = 0 then [NoClassGroups] else [])"

definition lookup_errors :: "PaxIndex \<Rightarrow> message list" where
  "lookup_errors p =
     (if length (Object_keys (classesByCode p)) \<noteq> length (checked_classes p)
      then [ClassLookupCountMismatch (length (Object_keys (classesByCode p)))
              (length (checked_classes p))]
      else [])"

section \<open>Data of the test suites\<close>

text \<open>The classes \<open>mockSoloClass\<close> and \<open>mockASClass\<close> of the calculator's tests.\<close>

definition mockSoloClass :: SoloClass where
  "mockSoloClass = \<lparr> code = ''SS'', name = ''Super Street'', paxIndex = double_of (844 / 1000), isActive = True \<rparr>"

definition mockASClass :: SoloClass where
  "mockASClass = \<lparr> code = ''AS'', name = ''A Street'', paxIndex = double_of (83 / 100), isActive = True \<rparr>"

text \<open>
  Datasets in the shape of those of the edge-case tests: a class code repeated in a second
  group, the same with the second group lacking id and name, a class with index 1.1, the
  test's class with index -0.5, and a lookup object whose keys are no class codes.
\<close>

definition solo_index :: "SoloClassGroup list \<Rightarrow> (string \<times> SoloClass) list \<Rightarrow> PaxIndex" where
  "solo_index gs lookup =
     \<lparr> year = 2024, indexType = ''Solo'', version = ''1.0.0'', releaseDate = ''2024-01-01'',
       lastUpdated = ''2024-01-01'', classGroups = gs, classesByCode = lookup \<rparr>"

definition streetGroup :: SoloClassGroup where
  "streetGroup = \<lparr> group_id = ''street'', group_name = ''Street'',
     description = ''Street Category'', classes = [mockSoloClass, mockASClass] \<rparr>"

definition duplicateGroup :: SoloClassGroup where
  "duplicateGroup = \<lparr> group_id = ''touring'', group_name = ''Street Touring'',
     description = ''Street Touring Category'',
     classes = [\<lparr> code = ''SS'', name = ''Second SS'', paxIndex = double_of (82 / 100), isActive = True \<rparr>] \<rparr>"

definition unnamedGroup :: SoloClassGroup where
  "unnamedGroup = \<lparr> group_id = '''', group_name = '''', description = ''Empty group'',
     classes = [mockSoloClass] \<rparr>"

definition duplicateIndex :: PaxIndex where
  "duplicateIndex = solo_index [streetGroup, duplicateGroup]
     [(''SS'', mockSoloClass), (''AS'', mockASClass)]"

definition skippedDuplicateIndex :: PaxIndex where
  "skippedDuplicateIndex = solo_index [streetGroup, unnamedGroup]
     [(''SS'', mockSoloClass), (''AS'', mockASClass)]"

definition warningIndex :: PaxIndex where
  "warningIndex = solo_index
     [\<lparr> group_id = ''test'', group_name = ''Test'', description = ''Test group'',
        classes = [\<lparr> code = ''EXTREME'', name = ''Extreme Class'', paxIndex = double_of (11 / 10),
                     isActive = True \<rparr>] \<rparr>]
     [(''EXTREME'', \<lparr> code = ''EXTREME'', name = ''Extreme Class'', paxIndex = double_of (11 / 10),
                     isActive = True \<rparr>)]"

definition negativeIndex :: PaxIndex where
  "negativeIndex = solo_index
     [\<lparr> group_id = ''test'', group_name = ''Test'', description = ''Test group'',
        classes = [\<lparr> code = ''NEG'', name = ''Negative Class'', paxIndex = - (5 / 10),
                     isActive = True \<rparr>] \<rparr>]
     []"

text \<open>
  A group without id whose classes have the indices 1.1 and -0.5, after a group that is
  in order.
\<close>

definition unidentifiedGroup :: SoloClassGroup where
  "unidentifiedGroup = \<lparr> group_id = '''', group_name = ''Test'', description = ''Test group'',
     classes = [\<lparr> code = ''EXTREME'', name = ''Extreme Class'', paxIndex = double_of (11 / 10), isActive = True \<rparr>,
                \<lparr> code = ''NEG'', name = ''Negative Class'', paxIndex = - (5 / 10), isActive = True \<rparr>] \<rparr>"

definition skippedRangeIndex :: PaxIndex where
  "skippedRangeIndex = solo_index [streetGroup, unidentifiedGroup]
     [(''SS'', mockSoloClass), (''AS'', mockASClass)]"

text \<open>
  The examples below format numbers below \<open>10^21\<close> only, for which \<open>toFixed\<close> does not call
  its parameter; they pass \<open>no_toString\<close> for it.
\<close>

definition no_toString :: "double \<Rightarrow> string" where
  "no_toString x = []"

definition foreignKeysIndex :: PaxIndex where
  "foreignKeysIndex = solo_index [streetGroup]
     [(''XX'', mockSoloClass), (''YY'', mockASClass)]"

section \<open>Rounding to the nearest double\<close>

subsection \<open>The exponent\<close>

lemma expo_of_ge: "- int k \<le> expo_of p k x"
  by (simp add: expo_of_def)

lemma pow2_diff: "(2::rat) powi (int b - int k) = 2 ^ b / 2 ^ k"
  by (simp add: power_int_diff)

lemma pow2_le_iff: "(2::rat) powi a \<le> 2 powi b \<longleftrightarrow> a \<le> b"
proof
  assume h: "(2::rat) powi a \<le> 2 powi b"
  show "a \<le> b"
  proof (rule ccontr)
    assume "\<not> a \<le> b"
    then have "b < a" by simp
    then have "(2::rat) powi b < 2 powi a" by (rule power_int_strict_increasing) simp
    then show False using h by simp
  qed
next
  assume "a \<le> b"
  then show "(2::rat) powi a \<le> 2 powi b" by (rule power_int_increasing) simp
qed

lemma pow2_less_iff: "(2::rat) powi a < 2 powi b \<longleftrightarrow> a < b"
  using pow2_le_iff[of b a] by (simp add: not_le[symmetric])

lemma pow2_pos: "(0::rat) < 2 powi a"
  by (simp add: zero_less_power_int)

lemma expo_of_upper: "\<bar>x\<bar> < 2 powi (expo_of p k x + int p)"
proof -
  define s where "s = nat \<lfloor>\<bar>x\<bar> * 2 ^ k\<rfloor>"
  define b where "b = floorlog 2 s"
  have f0: "0 \<le> \<lfloor>\<bar>x\<bar> * 2 ^ k\<rfloor>" by simp
  have "\<bar>x\<bar> * 2 ^ k < of_int \<lfloor>\<bar>x\<bar> * 2 ^ k\<rfloor> + 1" by linarith
  also have "of_int \<lfloor>\<bar>x\<bar> * 2 ^ k\<rfloor> = (of_nat s :: rat)" unfolding s_def using f0 by simp
  finally have lt: "\<bar>x\<bar> * 2 ^ k < of_nat s + 1" .
  have e: "expo_of p k x = max (int b - int (k + p)) (- int k)"
    by (simp add: expo_of_def b_def s_def)
  have "of_nat s + 1 \<le> (2::rat) ^ b"
  proof (cases "s = 0")
    case True
    then show ?thesis by simp
  next
    case False
    then have "s < 2 ^ b" unfolding b_def using floorlog_bounds[of s 2] by simp
    then have "s + 1 \<le> 2 ^ b" by simp
    then have "(of_nat (s + 1) :: rat) \<le> of_nat (2 ^ b)" by (rule of_nat_mono)
    then show ?thesis by simp
  qed
  then have "\<bar>x\<bar> * 2 ^ k < 2 ^ b" using lt by linarith
  then have "\<bar>x\<bar> < 2 ^ b / 2 ^ k" by (simp add: pos_less_divide_eq)
  also have "\<dots> = 2 powi (int b - int k)" by (simp only: pow2_diff)
  also have "\<dots> \<le> 2 powi (expo_of p k x + int p)"
    unfolding pow2_le_iff e by simp
  finally show ?thesis .
qed

lemma expo_of_lower:
  assumes "- int k < expo_of p k x" "0 < p"
  shows "2 powi (expo_of p k x + int p - 1) \<le> \<bar>x\<bar>"
proof -
  define s where "s = nat \<lfloor>\<bar>x\<bar> * 2 ^ k\<rfloor>"
  define b where "b = floorlog 2 s"
  have f0: "0 \<le> \<lfloor>\<bar>x\<bar> * 2 ^ k\<rfloor>" by simp
  have e: "expo_of p k x = max (int b - int (k + p)) (- int k)"
    by (simp add: expo_of_def b_def s_def)
  then have eb: "expo_of p k x = int b - int (k + p)" and b: "p < b" using assms by simp_all
  have s0: "0 < s"
  proof (rule ccontr)
    assume "\<not> 0 < s"
    then have "b = 0" unfolding b_def by (simp add: floorlog_eq_zero_iff)
    then show False using b by simp
  qed
  have "2 ^ (b - 1) \<le> s" unfolding b_def using floorlog_bounds[of s 2] s0 by simp
  then have "(of_nat (2 ^ (b - 1)) :: rat) \<le> of_nat s" by (rule of_nat_mono)
  then have "(2::rat) ^ (b - 1) \<le> of_nat s" by simp
  also have "(of_nat s :: rat) = of_int \<lfloor>\<bar>x\<bar> * 2 ^ k\<rfloor>" unfolding s_def using f0 by simp
  also have "\<dots> \<le> \<bar>x\<bar> * 2 ^ k" by (rule of_int_floor_le)
  finally have "(2::rat) ^ (b - 1) / 2 ^ k \<le> \<bar>x\<bar>" by (simp add: pos_divide_le_eq)
  moreover have "(2::rat) ^ (b - 1) / 2 ^ k = 2 powi (int (b - 1) - int k)" by (simp only: pow2_diff)
  moreover have "int (b - 1) - int k = expo_of p k x + int p - 1" using eb b by simp
  ultimately show ?thesis by simp
qed

lemma expo_of_eqI:
  assumes "2 powi (e + int p - 1) \<le> \<bar>x\<bar>" "\<bar>x\<bar> < 2 powi (e + int p)" "- int k \<le> e" "0 < p"
  shows "expo_of p k x = e"
proof -
  have "(2::rat) powi (e + int p - 1) < 2 powi (expo_of p k x + int p)"
    using assms(1) expo_of_upper[of x p k] by linarith
  then have 1: "e \<le> expo_of p k x" by (simp add: pow2_less_iff)
  show ?thesis
  proof (cases "- int k < expo_of p k x")
    case True
    have "(2::rat) powi (expo_of p k x + int p - 1) < 2 powi (e + int p)"
      using expo_of_lower[OF True assms(4)] assms(2) by linarith
    then show ?thesis using 1 by (simp add: pow2_less_iff)
  next
    case False
    then show ?thesis using 1 assms(3) expo_of_ge[of k p x] by linarith
  qed
qed

lemma round_even_err: "\<bar>of_int (round_even q) - q\<bar> \<le> 1 / 2"
proof -
  have "of_int \<lfloor>q\<rfloor> \<le> q" "q < of_int \<lfloor>q\<rfloor> + 1" by linarith+
  then show ?thesis unfolding round_even_def Let_def by (auto simp: abs_le_iff)
qed

lemma round_even_eqI: "\<bar>q - of_int m\<bar> < 1 / 2 \<Longrightarrow> round_even q = m"
proof -
  assume h: "\<bar>q - of_int m\<bar> < 1 / 2"
  have "\<bar>of_int (round_even q) - (of_int m :: rat)\<bar> < 1" using round_even_err[of q] h by linarith
  then have "\<bar>(of_int (round_even q - m) :: rat)\<bar> < 1" by simp
  then have "\<bar>round_even q - m\<bar> < 1" by (metis of_int_abs of_int_less_1_iff)
  then show ?thesis by simp
qed

lemma round_even_int: "round_even (of_int m) = m"
  by (rule round_even_eqI) simp

lemma round_even_mono: "q \<le> q' \<Longrightarrow> round_even q \<le> round_even q'"
proof -
  assume h: "q \<le> q'"
  have f: "\<lfloor>q\<rfloor> \<le> \<lfloor>q'\<rfloor>" using h by (rule floor_mono)
  show ?thesis
  proof (cases "\<lfloor>q\<rfloor> = \<lfloor>q'\<rfloor>")
    case True
    then show ?thesis using h unfolding round_even_def Let_def by auto
  next
    case False
    then have "\<lfloor>q\<rfloor> + 1 \<le> \<lfloor>q'\<rfloor>" using f by simp
    moreover have "round_even q \<le> \<lfloor>q\<rfloor> + 1" unfolding round_even_def Let_def by auto
    moreover have "\<lfloor>q'\<rfloor> \<le> round_even q'" unfolding round_even_def Let_def by auto
    ultimately show ?thesis by linarith
  qed
qed

subsection \<open>Error, exactness and sign of a rounded value\<close>

lemma abs_scaled:
  fixes s :: rat
  assumes "0 < s"
  shows "\<bar>a * s - x\<bar> = \<bar>a - x / s\<bar> * s"
proof -
  have "a * s - x = (a - x / s) * s" using assms by (simp add: field_simps)
  then show ?thesis using assms by (simp add: abs_mult)
qed

lemma round_even_scaled:
  "\<bar>of_int (round_even (x / 2 powi e)) * 2 powi e - x\<bar> \<le> 2 powi e / 2"
proof -
  have pos: "(0::rat) < 2 powi e" by (rule pow2_pos)
  have "\<bar>of_int (round_even (x / 2 powi e)) * 2 powi e - x\<bar>
      = \<bar>of_int (round_even (x / 2 powi e)) - x / 2 powi e\<bar> * 2 powi e"
    by (rule abs_scaled[OF pos])
  also have "\<dots> \<le> (1 / 2) * 2 powi e"
    by (rule mult_right_mono[OF round_even_err]) (use pos in simp)
  finally show ?thesis by simp
qed

lemma round_to_Num:
  assumes "round_to p k emax x = Num y"
  shows "y = of_int (round_even (x / 2 powi expo_of p k x)) * 2 powi expo_of p k x"
    and "\<bar>y\<bar> < 2 ^ emax"
  using assms unfolding round_to_def Let_def by (auto split: if_splits)

lemma round_to_err:
  assumes "round_to p k emax x = Num y"
  shows "\<bar>y - x\<bar> \<le> 2 powi expo_of p k x / 2"
  unfolding round_to_Num(1)[OF assms] by (rule round_even_scaled)

lemma expo_of_small:
  assumes "0 < p"
  shows "2 powi expo_of p k x \<le> max \<bar>x\<bar> 1"
proof (cases "- int k < expo_of p k x")
  case True
  have "(2::rat) powi expo_of p k x \<le> 2 powi (expo_of p k x + int p - 1)"
    unfolding pow2_le_iff using assms by simp
  also have "\<dots> \<le> \<bar>x\<bar>" using expo_of_lower[OF True assms] .
  finally show ?thesis by simp
next
  case False
  then have "expo_of p k x \<le> 0" by simp
  then have "(2::rat) powi expo_of p k x \<le> 2 powi 0" unfolding pow2_le_iff .
  then show ?thesis by simp
qed

lemma round_to_finite:
  assumes "\<bar>x\<bar> \<le> 2 ^ (emax - 1)" "0 < emax" "0 < p"
  shows "\<exists>y. round_to p k emax x = Num y"
proof -
  define e where "e = expo_of p k x"
  define y :: rat where "y = of_int (round_even (x / 2 powi e)) * 2 powi e"
  have "\<bar>y - x\<bar> \<le> 2 powi e / 2" unfolding y_def by (rule round_even_scaled)
  also have "\<dots> \<le> max \<bar>x\<bar> 1 / 2"
    using expo_of_small[OF assms(3), of k x] unfolding e_def by simp
  finally have d: "\<bar>y - x\<bar> \<le> max \<bar>x\<bar> 1 / 2" by simp
  have one: "(1::rat) \<le> 2 ^ (emax - 1)" by simp
  have "max \<bar>x\<bar> 1 \<le> 2 ^ (emax - 1)" using assms(1) one by simp
  then have "\<bar>y\<bar> \<le> 2 ^ (emax - 1) + 2 ^ (emax - 1) / 2" using d assms(1) by linarith
  also have "\<dots> < 2 * 2 ^ (emax - 1)" by simp
  also have "\<dots> = (2::rat) ^ emax" using assms(2) by (cases emax) simp_all
  finally have "\<not> 2 ^ emax \<le> \<bar>y\<bar>" by simp
  then have "round_to p k emax x = Num y" unfolding round_to_def Let_def y_def e_def by simp
  then show ?thesis by blast
qed

lemma round_to_exact:
  assumes "x = of_int m * 2 powi e0" "\<bar>m\<bar> < 2 ^ p" "- int k \<le> e0" "\<bar>x\<bar> < 2 ^ emax" "0 < p"
  shows "round_to p k emax x = Num x"
proof -
  define e where "e = expo_of p k x"
  have le: "e \<le> e0"
  proof (cases "- int k < e")
    case True
    have "\<bar>x\<bar> = of_int \<bar>m\<bar> * 2 powi e0" unfolding assms(1) by (simp add: abs_mult less_imp_le[OF pow2_pos])
    also have "\<dots> < 2 ^ p * 2 powi e0"
    proof (rule mult_strict_right_mono)
      have "rat_of_int \<bar>m\<bar> < of_int (2 ^ p)" using assms(2) by (simp only: of_int_less_iff)
      then show "rat_of_int \<bar>m\<bar> < 2 ^ p" by simp
    qed (rule pow2_pos)
    also have "\<dots> = 2 powi (e0 + int p)" by (simp add: power_int_add)
    finally have "\<bar>x\<bar> < 2 powi (e0 + int p)" .
    moreover have "2 powi (e + int p - 1) \<le> \<bar>x\<bar>"
      using expo_of_lower[of k p x] True assms(5) unfolding e_def by simp
    ultimately have "(2::rat) powi (e + int p - 1) < 2 powi (e0 + int p)" by linarith
    then show ?thesis by (simp add: pow2_less_iff)
  next
    case False
    then show ?thesis using assms(3) by linarith
  qed
  define j where "j = nat (e0 - e)"
  have e0: "e0 = e + int j" unfolding j_def using le by simp
  have "x / 2 powi e = of_int m * (2 powi e0 / 2 powi e)" unfolding assms(1) by simp
  also have "2 powi e0 / 2 powi e = (2::rat) ^ j" unfolding e0 by (simp add: power_int_add)
  finally have q: "x / 2 powi e = of_int (m * 2 ^ j)" by simp
  have "of_int (round_even (x / 2 powi e)) * 2 powi e = x"
    unfolding q round_even_int using q pow2_pos[of e] by (simp add: field_simps)
  then show ?thesis unfolding round_to_def Let_def e_def[symmetric] using assms(4) by simp
qed

lemma round_to_eval_even:
  assumes "2 powi (e + int p - 1) \<le> \<bar>x\<bar>" "\<bar>x\<bar> < 2 powi (e + int p)" "- int k \<le> e"
    "round_even (x / 2 powi e) = m" "e + int p < int emax" "0 < p"
  shows "round_to p k emax x = Num (of_int m * 2 powi e)"
proof -
  have e: "expo_of p k x = e" using assms(1,2,3,6) by (rule expo_of_eqI)
  have pos: "(0::rat) < 2 powi e" by (rule pow2_pos)
  have h: "\<bar>of_int m - x / 2 powi e\<bar> \<le> 1 / 2"
    using round_even_err[of "x / 2 powi e"] unfolding assms(4) .
  have "\<bar>of_int m * 2 powi e - x\<bar> = \<bar>of_int m - x / 2 powi e\<bar> * 2 powi e"
    by (rule abs_scaled[OF pos])
  also have "\<dots> \<le> 1 * 2 powi e"
    by (rule mult_right_mono) (use h pos in simp_all)
  also have "\<dots> \<le> 2 powi (e + int p)" by (simp add: pow2_le_iff)
  finally have "\<bar>rat_of_int m * 2 powi e\<bar> < 2 powi (e + int p) + 2 powi (e + int p)"
    using assms(2) by linarith
  also have "\<dots> = 2 powi (e + int p + 1)" by (simp add: power_int_add)
  also have "\<dots> \<le> 2 powi (int emax)" unfolding pow2_le_iff using assms(5) by simp
  finally have "\<not> 2 ^ emax \<le> \<bar>rat_of_int m * 2 powi e\<bar>" by simp
  then show ?thesis unfolding round_to_def Let_def e assms(4) by simp
qed

lemma round_even_tie:
  assumes "\<bar>q - of_int m\<bar> = 1 / 2" "even m"
  shows "round_even q = m"
proof (cases "of_int m \<le> q")
  case True
  then have q: "q = of_int m + 1 / 2" using assms(1) by simp
  have "\<lfloor>q\<rfloor> = m" unfolding q by (rule floor_unique) simp_all
  then show ?thesis unfolding round_even_def Let_def using q assms(2) by simp
next
  case False
  then have q: "q = of_int (m - 1) + 1 / 2" using assms(1) by simp
  have f: "\<lfloor>q\<rfloor> = m - 1" unfolding q by (rule floor_unique) simp_all
  have "odd (m - 1)" using assms(2) by simp
  then show ?thesis unfolding round_even_def Let_def f using q by simp
qed

lemma round_to_eval:
  assumes "2 powi (e + int p - 1) \<le> \<bar>x\<bar>" "\<bar>x\<bar> < 2 powi (e + int p)" "- int k \<le> e"
    "\<bar>x / 2 powi e - of_int m\<bar> < 1 / 2" "e + int p < int emax" "0 < p"
  shows "round_to p k emax x = Num (of_int m * 2 powi e)"
  using assms(1,2,3) round_even_eqI[OF assms(4)] assms(5,6) by (rule round_to_eval_even)

lemma round_to_eval_tie:
  assumes "2 powi (e + int p - 1) \<le> \<bar>x\<bar>" "\<bar>x\<bar> < 2 powi (e + int p)" "- int k \<le> e"
    "\<bar>x / 2 powi e - of_int m\<bar> = 1 / 2" "even m" "e + int p < int emax" "0 < p"
  shows "round_to p k emax x = Num (of_int m * 2 powi e)"
  using assms(1,2,3) round_even_tie[OF assms(4,5)] assms(6,7) by (rule round_to_eval_even)

lemma round_even_0: "round_even 0 = 0"
  using round_even_int[of 0] by simp

lemma round_to_0: "round_to p k emax 0 = Num 0"
proof -
  have "\<not> (2::rat) ^ emax \<le> 0" by (simp add: not_le)
  then show ?thesis unfolding round_to_def Let_def by (simp add: round_even_0)
qed

lemma round_to_nonneg:
  assumes "round_to p k emax x = Num y" "0 \<le> x"
  shows "0 \<le> y"
proof -
  have "0 \<le> x / 2 powi expo_of p k x" using assms(2) less_imp_le[OF pow2_pos] by simp
  then have "round_even 0 \<le> round_even (x / 2 powi expo_of p k x)" by (rule round_even_mono)
  then show ?thesis unfolding round_to_Num(1)[OF assms(1)] round_even_0
    using less_imp_le[OF pow2_pos] by simp
qed

lemma round_to_nonpos:
  assumes "round_to p k emax x = Num y" "x \<le> 0"
  shows "y \<le> 0"
proof -
  have "x / 2 powi expo_of p k x \<le> 0" using assms(2) less_imp_le[OF pow2_pos]
    by (simp add: divide_nonpos_pos pow2_pos)
  then have "round_even (x / 2 powi expo_of p k x) \<le> round_even 0" by (rule round_even_mono)
  then show ?thesis unfolding round_to_Num(1)[OF assms(1)] round_even_0
    using less_imp_le[OF pow2_pos] by (simp add: mult_le_0_iff)
qed

lemma round_to_neg:
  assumes "round_to p k emax x = Num y" "x \<le> - (1 / 2 ^ k)" "0 < p"
  shows "y < 0"
proof -
  define e where "e = expo_of p k x"
  have pos: "(0::rat) < 2 powi e" by (rule pow2_pos)
  have "(0::rat) < 1 / 2 ^ k" by simp
  then have xneg: "x < 0" using assms(2) by linarith
  have "2 powi e \<le> \<bar>x\<bar>"
  proof (cases "- int k < e")
    case True
    have "(2::rat) powi e \<le> 2 powi (e + int p - 1)"
      unfolding pow2_le_iff using assms(3) by simp
    also have "\<dots> \<le> \<bar>x\<bar>" using expo_of_lower[of k p x] True assms(3) unfolding e_def by simp
    finally show ?thesis .
  next
    case False
    then have "e = - int k" unfolding e_def using expo_of_ge[of k p x] by linarith
    then have "(2::rat) powi e = 1 / 2 ^ k" by (simp add: power_int_minus field_simps)
    then show ?thesis using assms(2) by linarith
  qed
  then have "x \<le> - 1 * 2 powi e" using xneg by simp
  then have "x / 2 powi e \<le> - 1" using pos by (simp add: field_simps)
  then have "round_even (x / 2 powi e) \<le> round_even (of_int (- 1))"
    using round_even_mono[of "x / 2 powi e" "of_int (-1)"] by simp
  then have "round_even (x / 2 powi e) < 0" unfolding round_even_int by simp
  then show ?thesis unfolding round_to_Num(1)[OF assms(1)] e_def[symmetric]
    using pos by (simp add: mult_less_0_iff)
qed

lemma pow2_nat: "(2::rat) powi (int n) = 2 ^ n"
  by (rule power_int_of_nat)

lemma round_to_exact_pow:
  assumes "x = of_int m * 2 powi e0" "\<bar>m\<bar> < 2 ^ p" "- int k \<le> e0" "e0 + int p \<le> int emax" "0 < p"
  shows "round_to p k emax x = Num x"
proof (rule round_to_exact[OF assms(1,2,3) _ assms(5)])
  have "\<bar>x\<bar> = of_int \<bar>m\<bar> * 2 powi e0"
    unfolding assms(1) by (simp add: abs_mult less_imp_le[OF pow2_pos])
  also have "\<dots> < 2 ^ p * 2 powi e0"
  proof (rule mult_strict_right_mono)
    have "rat_of_int \<bar>m\<bar> < of_int (2 ^ p)" using assms(2) by (simp only: of_int_less_iff)
    then show "rat_of_int \<bar>m\<bar> < 2 ^ p" by simp
  qed (rule pow2_pos)
  also have "\<dots> = 2 powi (e0 + int p)" by (simp add: power_int_add)
  also have "\<dots> \<le> 2 powi (int emax)" unfolding pow2_le_iff using assms(4) .
  finally show "\<bar>x\<bar> < 2 ^ emax" unfolding pow2_nat .
qed

lemma round_to_abs_err:
  assumes "round_to p k emax x = Num y" "\<bar>x\<bar> \<le> 2 powi j" "- int k \<le> j - int p + 1" "0 < p"
  shows "\<bar>y - x\<bar> \<le> 2 powi (j - int p)"
proof -
  define e where "e = expo_of p k x"
  have le: "e \<le> j - int p + 1"
  proof (cases "- int k < e")
    case True
    have "2 powi (e + int p - 1) \<le> \<bar>x\<bar>"
      using expo_of_lower[of k p x] True assms(4) unfolding e_def by simp
    then have "(2::rat) powi (e + int p - 1) \<le> 2 powi j" using assms(2) by linarith
    then show ?thesis unfolding pow2_le_iff by simp
  next
    case False
    then have "e = - int k" unfolding e_def using expo_of_ge[of k p x] by linarith
    then show ?thesis using assms(3) by simp
  qed
  have "\<bar>y - x\<bar> \<le> 2 powi e / 2" unfolding e_def using assms(1) by (rule round_to_err)
  also have "\<dots> = 2 powi (e - 1)" by (simp add: power_int_diff)
  also have "\<dots> \<le> 2 powi (j - int p)" unfolding pow2_le_iff using le by simp
  finally show ?thesis .
qed

lemma round_to_finite_pow:
  assumes "\<bar>x\<bar> \<le> 2 powi j" "j < int emax" "0 < emax" "0 < p"
  shows "\<exists>y. round_to p k emax x = Num y"
proof (rule round_to_finite)
  show e: "0 < emax" by (rule assms(3))
  have "j \<le> int (emax - 1)" using assms(2) e by simp
  then have "(2::rat) powi j \<le> 2 powi (int (emax - 1))" unfolding pow2_le_iff .
  then show "\<bar>x\<bar> \<le> 2 ^ (emax - 1)" using assms(1) unfolding pow2_nat by linarith
qed (rule assms(4))

lemma round_to_neg_pow:
  assumes "round_to p k emax x = Num y" "x \<le> - (2 powi j)" "- int k \<le> j" "0 < p"
  shows "y < 0"
proof (rule round_to_neg[OF assms(1) _ assms(4)])
  have "(2::rat) powi (- int k) \<le> 2 powi j" unfolding pow2_le_iff using assms(3) .
  moreover have "(2::rat) powi (- int k) = 1 / 2 ^ k"
    by (simp add: power_int_minus field_simps)
  ultimately show "x \<le> - (1 / 2 ^ k)" using assms(2) by linarith
qed

lemma round_to_cases:
  "(\<exists>y. round_to p k emax x = Num y) \<or> (round_to p k emax x = PInf \<and> 0 < x)
     \<or> (round_to p k emax x = NInf \<and> x < 0)"
proof (cases "x = 0")
  case True
  then show ?thesis by (simp add: round_to_0)
next
  case False
  then show ?thesis unfolding round_to_def Let_def by auto
qed

lemma round_even_bound:
  assumes "\<bar>q\<bar> \<le> of_int n"
  shows "\<bar>round_even q\<bar> \<le> n"
proof -
  have "round_even q \<le> round_even (of_int n)"
    by (rule round_even_mono) (use assms in linarith)
  moreover have "round_even (of_int (- n)) \<le> round_even q"
  proof (rule round_even_mono)
    have "- rat_of_int n \<le> q" using assms by linarith
    then show "rat_of_int (- n) \<le> q" by simp
  qed
  ultimately show ?thesis unfolding round_even_int by linarith
qed

lemma round_to_idem:
  assumes "round_to p k emax x = Num y" "0 < p"
  shows "round_to p k emax y = Num y"
proof -
  define e where "e = expo_of p k x"
  define m where "m = round_even (x / 2 powi e)"
  have y: "y = of_int m * 2 powi e" and fin: "\<bar>y\<bar> < 2 ^ emax"
    using round_to_Num[OF assms(1)] unfolding e_def m_def by simp_all
  have pos: "(0::rat) < 2 powi e" by (rule pow2_pos)
  have k: "- int k \<le> e" unfolding e_def by (rule expo_of_ge)
  have "\<bar>x\<bar> / 2 powi e < 2 powi (e + int p) / 2 powi e"
    using expo_of_upper[of x p k] pos unfolding e_def by (simp add: divide_strict_right_mono)
  also have "\<dots> = 2 ^ p" by (simp add: power_int_add)
  finally have "\<bar>x / 2 powi e\<bar> \<le> of_int (2 ^ p)" using pos by simp
  then have mb: "\<bar>m\<bar> \<le> 2 ^ p" unfolding m_def by (rule round_even_bound)
  show ?thesis
  proof (cases "\<bar>m\<bar> < 2 ^ p")
    case True
    show ?thesis using y True k fin assms(2) by (rule round_to_exact)
  next
    case False
    then have m: "\<bar>m\<bar> = 2 ^ p" using mb by simp
    obtain p' where p': "p = Suc p'" using assms(2) by (cases p) simp_all
    define s :: int where "s = (if 0 \<le> m then 1 else - 1)"
    have ms: "m = s * 2 ^ p" using m unfolding s_def by (auto simp: abs_if split: if_splits)
    have "y = of_int (s * 2 ^ p') * 2 powi (e + 1)"
      unfolding y ms p' by (simp add: power_int_add)
    moreover have "\<bar>s * 2 ^ p'\<bar> < 2 ^ p" unfolding s_def p' by (simp add: abs_mult)
    moreover have "- int k \<le> e + 1" using k by simp
    ultimately show ?thesis using fin assms(2) by (rule round_to_exact)
  qed
qed

subsection \<open>Doubles\<close>

lemma fl_eval:
  assumes "2 powi (e + 52) \<le> \<bar>x\<bar>" "\<bar>x\<bar> < 2 powi (e + 53)" "- 1074 \<le> e" "e < 971"
    "\<bar>x / 2 powi e - of_int m\<bar> < 1 / 2" "y = of_int m * 2 powi e"
  shows "fl x = Num y"
proof -
  have a: "e + int 53 - 1 = e + 52" by simp
  have "round_to 53 1074 1024 x = Num (of_int m * 2 powi e)"
  proof (rule round_to_eval)
    show "2 powi (e + int 53 - 1) \<le> \<bar>x\<bar>" using assms(1) by (simp only: a)
    show "\<bar>x\<bar> < 2 powi (e + int 53)" using assms(2) by simp
    show "- int 1074 \<le> e" using assms(3) by simp
    show "\<bar>x / 2 powi e - of_int m\<bar> < 1 / 2" using assms(5) .
    show "e + int 53 < int 1024" using assms(4) by simp
    show "0 < (53::nat)" by simp
  qed
  then show ?thesis unfolding fl_def assms(6) .
qed

lemma fl_eval_tie:
  assumes "2 powi (e + 52) \<le> \<bar>x\<bar>" "\<bar>x\<bar> < 2 powi (e + 53)" "- 1074 \<le> e" "e < 971"
    "\<bar>x / 2 powi e - of_int m\<bar> = 1 / 2" "even m" "y = of_int m * 2 powi e"
  shows "fl x = Num y"
proof -
  have a: "e + int 53 - 1 = e + 52" by simp
  have "round_to 53 1074 1024 x = Num (of_int m * 2 powi e)"
  proof (rule round_to_eval_tie)
    show "2 powi (e + int 53 - 1) \<le> \<bar>x\<bar>" using assms(1) by (simp only: a)
    show "\<bar>x\<bar> < 2 powi (e + int 53)" using assms(2) by simp
    show "- int 1074 \<le> e" using assms(3) by simp
    show "\<bar>x / 2 powi e - of_int m\<bar> = 1 / 2" using assms(5) .
    show "even m" using assms(6) .
    show "e + int 53 < int 1024" using assms(4) by simp
    show "0 < (53::nat)" by simp
  qed
  then show ?thesis unfolding fl_def assms(7) .
qed

lemma fl_0: "fl 0 = Num 0"
  unfolding fl_def by (rule round_to_0)

lemma fl_exact:
  assumes "x = of_int m * 2 powi e0" "\<bar>m\<bar> < 2 ^ 53" "- 1074 \<le> e0" "e0 \<le> 971"
  shows "fl x = Num x"
  unfolding fl_def
proof (rule round_to_exact_pow[OF assms(1)])
  show "\<bar>m\<bar> < 2 ^ 53" by (rule assms(2))
  show "- int 1074 \<le> e0" using assms(3) by simp
  show "e0 + int 53 \<le> int 1024" using assms(4) by simp
  show "0 < (53::nat)" by simp
qed

lemma fl_int:
  assumes "\<bar>n\<bar> < 2 ^ 53"
  shows "fl (of_int n) = Num (of_int n)"
  by (rule fl_exact[where m = n and ?e0.0 = 0]) (use assms in simp_all)

lemma fl_nat:
  assumes "n < 2 ^ 53"
  shows "fl (of_nat n) = Num (of_nat n)"
proof -
  have "\<bar>int n\<bar> < 2 ^ 53" using assms by (simp add: of_nat_less_numeral_power_cancel_iff)
  from fl_int[OF this] show ?thesis by simp
qed

lemma fl_numeral:
  assumes "(numeral k :: int) < 9007199254740992"
  shows "fl (numeral k) = Num (numeral k)"
proof -
  have "\<bar>numeral k :: int\<bar> < 2 ^ 53" using assms by simp
  from fl_int[OF this] show ?thesis by simp
qed

lemma fl_1: "fl 1 = Num 1"
  using fl_int[of 1] by simp

lemma fl_abs_err:
  assumes "fl x = Num y" "\<bar>x\<bar> \<le> 2 powi j" "- 1021 \<le> j"
  shows "\<bar>y - x\<bar> \<le> 2 powi (j - 53)"
proof -
  have "\<bar>y - x\<bar> \<le> 2 powi (j - int 53)"
  proof (rule round_to_abs_err)
    show "round_to 53 1074 1024 x = Num y" using assms(1) unfolding fl_def .
    show "\<bar>x\<bar> \<le> 2 powi j" by (rule assms(2))
    show "- int 1074 \<le> j - int 53 + 1" using assms(3) by simp
    show "0 < (53::nat)" by simp
  qed
  then show ?thesis by simp
qed

lemma fl_finite:
  assumes "\<bar>x\<bar> \<le> 2 powi j" "j \<le> 1023"
  shows "\<exists>y. fl x = Num y"
  unfolding fl_def
proof (rule round_to_finite_pow[OF assms(1)])
  show "j < int 1024" using assms(2) by simp
qed simp_all

lemma fl_nonneg: "fl x = Num y \<Longrightarrow> 0 \<le> x \<Longrightarrow> 0 \<le> y"
  unfolding fl_def by (rule round_to_nonneg)

lemma fl_nonpos: "fl x = Num y \<Longrightarrow> x \<le> 0 \<Longrightarrow> y \<le> 0"
  unfolding fl_def by (rule round_to_nonpos)

lemma fl_neg:
  assumes "fl x = Num y" "x \<le> - (2 powi j)" "- 1074 \<le> j"
  shows "y < 0"
proof (rule round_to_neg_pow)
  show "round_to 53 1074 1024 x = Num y" using assms(1) unfolding fl_def .
  show "x \<le> - (2 powi j)" by (rule assms(2))
  show "- int 1074 \<le> j" using assms(3) by simp
  show "0 < (53::nat)" by simp
qed

lemma fl_cases:
  "(\<exists>y. fl x = Num y) \<or> (fl x = PInf \<and> 0 < x) \<or> (fl x = NInf \<and> x < 0)"
  unfolding fl_def by (rule round_to_cases)

lemma fl_idem: "fl x = Num y \<Longrightarrow> fl y = Num y"
  unfolding fl_def by (rule round_to_idem) simp_all

lemma fl_is_double: "fl x = Num y \<Longrightarrow> is_double y"
  unfolding is_double_def by (rule fl_idem)

lemma is_double_double_of: "is_double (double_of q)"
proof (cases "fl q")
  case (Num y)
  then show ?thesis using fl_is_double[OF Num] by (simp add: double_of_def)
qed (simp_all add: double_of_def is_double_def fl_0)

subsection \<open>Numerals\<close>

lemma floor_rat_numeral: "\<lfloor>numeral a / numeral b :: rat\<rfloor> = numeral a div numeral b"
  using floor_divide_of_int_eq[of "numeral a" "numeral b", where ?'a = rat] by simp

lemma fl_neg_numeral:
  assumes "(numeral k :: int) < 9007199254740992"
  shows "fl (- numeral k) = Num (- numeral k)"
proof -
  have "\<bar>- numeral k :: int\<bar> < 2 ^ 53" using assms by simp
  from fl_int[OF this] show ?thesis by simp
qed

subsection \<open>The doubles of the examples\<close>

text \<open>
  The roundings that the examples below need, each checked against the bounds of
  \<open>fl_eval\<close>.
\<close>

lemma fl_value_1: "fl (- (95621451803885 / 576460752303423488)) = Num (- (95621451803885 / 576460752303423488))"
  by (rule fl_eval[where e = "- 65" and m = "- 6119772915448640"]) simp_all

lemma fl_value_2: "fl (- (450359962737 / 1125899906842624)) = Num (- (450359962737 / 1125899906842624))"
  by (rule fl_eval[where e = "- 64" and m = "- 7378697629483008"]) simp_all

lemma fl_value_3: "fl (- (288230376151711 / 576460752303423488)) = Num (- (288230376151711 / 576460752303423488))"
  by (rule fl_eval[where e = "- 63" and m = "- 4611686018427376"]) simp_all

lemma fl_value_4: "fl (51061687115923068727955325207935 / 5192296858534827628530496329220096) = Num (2834493035615175 / 288230376151711744)"
  by (rule fl_eval[where e = "- 59" and m = "5668986071230350"]) simp_all

lemma fl_value_5: "fl (1 / 100) = Num (5764607523034235 / 576460752303423488)"
  by (rule fl_eval[where e = "- 59" and m = "5764607523034235"]) simp_all

lemma fl_value_6: "fl (10060075163411229892616723917439 / 649037107316853453566312041152512) = Num (8935141660703065 / 576460752303423488)"
  by (rule fl_eval[where e = "- 59" and m = "8935141660703065"]) simp_all

lemma fl_value_7: "fl (2 / 125) = Num (1152921504606847 / 72057594037927936)"
  by (rule fl_eval[where e = "- 58" and m = "4611686018427388"]) simp_all

lemma fl_value_8: "fl (1 / 10) = Num (3602879701896397 / 36028797018963968)"
  by (rule fl_eval[where e = "- 56" and m = "7205759403792794"]) simp_all

lemma fl_value_9: "fl (123 / 1000) = Num (553942754166571 / 4503599627370496)"
  by (rule fl_eval[where e = "- 56" and m = "8863084066665136"]) simp_all

lemma fl_value_10: "fl (- (23890188648317 / 70368744177664)) = Num (- (23890188648317 / 70368744177664))"
  by (rule fl_eval[where e = "- 54" and m = "- 6115888293969152"]) simp_all

lemma fl_value_11: "fl (- (17 / 50)) = Num (- (6124895493223875 / 18014398509481984))"
  by (rule fl_eval[where e = "- 54" and m = "- 6124895493223875"]) simp_all

lemma fl_value_12: "fl (- (1 / 2)) = Num (- (1 / 2))"
  by (rule fl_eval[where e = "- 53" and m = "- 4503599627370496"]) simp_all

lemma fl_value_13: "fl (1 / 2) = Num (1 / 2)"
  by (rule fl_eval[where e = "- 53" and m = "4503599627370496"]) simp_all

lemma fl_value_14: "fl (137 / 250) = Num (308496574474879 / 562949953421312)"
  by (rule fl_eval[where e = "- 53" and m = "4935945191598064"]) simp_all

lemma fl_value_15: "fl (7 / 10) = Num (3152519739159347 / 4503599627370496)"
  by (rule fl_eval[where e = "- 53" and m = "6305039478318694"]) simp_all

lemma fl_value_16: "fl (403 / 500) = Num (907475324915155 / 1125899906842624)"
  by (rule fl_eval[where e = "- 53" and m = "7259802599321240"]) simp_all

lemma fl_value_17: "fl (41 / 50) = Num (7385903388887613 / 9007199254740992)"
  by (rule fl_eval[where e = "- 53" and m = "7385903388887613"]) simp_all

lemma fl_value_18: "fl (83 / 100) = Num (7475975381435023 / 9007199254740992)"
  by (rule fl_eval[where e = "- 53" and m = "7475975381435023"]) simp_all

lemma fl_value_19: "fl (104 / 125) = Num (7493989779944505 / 9007199254740992)"
  by (rule fl_eval[where e = "- 53" and m = "7493989779944505"]) simp_all

lemma fl_value_20: "fl (211 / 250) = Num (7602076171001397 / 9007199254740992)"
  by (rule fl_eval[where e = "- 53" and m = "7602076171001397"]) simp_all

lemma fl_value_21: "fl (1451960519864248 / 1498797955988901) = Num (8725724278030337 / 9007199254740992)"
  by (rule fl_eval[where e = "- 53" and m = "8725724278030337"]) simp_all

lemma fl_value_22: "fl (7475975381435023 / 7602076171001397) = Num (8857790736297421 / 9007199254740992)"
  by (rule fl_eval[where e = "- 53" and m = "8857790736297421"]) simp_all

lemma fl_value_23: "fl (- (199 / 200)) = Num (- (8962163258467287 / 9007199254740992))"
  by (rule fl_eval[where e = "- 53" and m = "- 8962163258467287"]) simp_all

lemma fl_value_24: "fl (- (8754405377553 / 8796093022208)) = Num (- (8754405377553 / 8796093022208))"
  by (rule fl_eval[where e = "- 53" and m = "- 8964511106614272"]) simp_all

lemma fl_value_25: "fl (999 / 1000) = Num (8998192055486251 / 9007199254740992)"
  by (rule fl_eval[where e = "- 53" and m = "8998192055486251"]) simp_all

lemma fl_value_26: "fl (1126350266805361 / 1125899906842624) = Num (1126350266805361 / 1125899906842624)"
  by (rule fl_eval[where e = "- 52" and m = "4505401067221444"]) simp_all

lemma fl_value_27: "fl (2501 / 2500) = Num (1126350266805361 / 1125899906842624)"
  by (rule fl_eval[where e = "- 52" and m = "4505401067221444"]) simp_all

lemma fl_value_28: "fl (4505851427184181 / 4503599627370496) = Num (4505851427184181 / 4503599627370496)"
  by (rule fl_eval[where e = "- 52" and m = "4505851427184181"]) simp_all

lemma fl_value_29: "fl (2001 / 2000) = Num (4505851427184181 / 4503599627370496)"
  by (rule fl_eval[where e = "- 52" and m = "4505851427184181"]) simp_all

lemma fl_value_30: "fl (253 / 250) = Num (2278821411449471 / 2251799813685248)"
  by (rule fl_eval[where e = "- 52" and m = "4557642822898942"]) simp_all

lemma fl_value_31: "fl (2225517511643 / 2199023255552) = Num (2225517511643 / 2199023255552)"
  by (rule fl_eval[where e = "- 52" and m = "4557859863844864"]) simp_all

lemma fl_value_32: "fl (7602076171001397 / 7475975381435023) = Num (4579563958434577 / 4503599627370496)"
  by (rule fl_eval[where e = "- 52" and m = "4579563958434577"]) simp_all

lemma fl_value_33: "fl (11 / 10) = Num (2476979795053773 / 2251799813685248)"
  by (rule fl_eval[where e = "- 52" and m = "4953959590107546"]) simp_all

lemma fl_value_34: "fl (5057542381537067 / 4503599627370496) = Num (5057542381537067 / 4503599627370496)"
  by (rule fl_eval[where e = "- 52" and m = "5057542381537067"]) simp_all

lemma fl_value_35: "fl (1123 / 1000) = Num (5057542381537067 / 4503599627370496)"
  by (rule fl_eval[where e = "- 52" and m = "5057542381537067"]) simp_all

lemma fl_value_36: "fl (21 / 2) = Num (21 / 2)"
  by (rule fl_eval[where e = "- 49" and m = "5910974510923776"]) simp_all

lemma fl_value_37: "fl (3474999680854737 / 281474976710656) = Num (3474999680854737 / 281474976710656)"
  by (rule fl_eval[where e = "- 49" and m = "6949999361709474"]) simp_all

lemma fl_value_38: "fl (123456789 / 10000000) = Num (3474999680854737 / 281474976710656)"
  by (rule fl_eval[where e = "- 49" and m = "6949999361709474"]) simp_all

lemma fl_value_39: "fl (6173 / 500) = Num (3475090062469759 / 281474976710656)"
  by (rule fl_eval[where e = "- 49" and m = "6950180124939518"]) simp_all

lemma fl_value_40: "fl (20127 / 1000) = Num (5665246856255373 / 281474976710656)"
  by (rule fl_eval[where e = "- 48" and m = "5665246856255373"]) simp_all

lemma fl_value_41: "fl (12757318728046842798394948421829 / 633825300114114700748351602688) = Num (354086724608983 / 17592186044416)"
  by (rule fl_eval[where e = "- 48" and m = "5665387593743728"]) simp_all

lemma fl_value_42: "fl (20467 / 1000) = Num (1440237087084249 / 70368744177664)"
  by (rule fl_eval[where e = "- 48" and m = "5760948348336996"]) simp_all

lemma fl_value_43: "fl (5137 / 250) = Num (5783747821450559 / 281474976710656)"
  by (rule fl_eval[where e = "- 48" and m = "5783747821450559"]) simp_all

lemma fl_value_44: "fl (11567495642901119 / 562949953421312) = Num (90371059710165 / 4398046511104)"
  by (rule fl_eval_tie[where e = "- 48" and m = "5783747821450560"]) simp_all

lemma fl_value_45: "fl (132866861044461315 / 2251799813685248) = Num (519011175954927 / 8796093022208)"
  by (rule fl_eval[where e = "- 47" and m = "8304178815278832"]) simp_all

lemma fl_value_46: "fl (11801 / 200) = Num (8304215500406129 / 140737488355328)"
  by (rule fl_eval[where e = "- 47" and m = "8304215500406129"]) simp_all

lemma fl_value_47: "fl (15253 / 250) = Num (1073334454941909 / 17592186044416)"
  by (rule fl_eval[where e = "- 47" and m = "8586675639535272"]) simp_all

lemma fl_value_48: "fl (68693459376518655 / 1125899906842624) = Num (134166912844763 / 2199023255552)"
  by (rule fl_eval[where e = "- 47" and m = "8586682422064832"]) simp_all

lemma fl_value_49: "fl (651 / 10) = Num (2290502622982963 / 35184372088832)"
  by (rule fl_eval[where e = "- 46" and m = "4581005245965926"]) simp_all

lemma fl_value_50: "fl (2345474685934554317 / 36028797018963968) = Num (2290502622982963 / 35184372088832)"
  by (rule fl_eval[where e = "- 46" and m = "4581005245965926"]) simp_all

lemma fl_value_51: "fl (293287918533248811 / 4503599627370496) = Num (4582623727082013 / 70368744177664)"
  by (rule fl_eval[where e = "- 46" and m = "4582623727082013"]) simp_all

lemma fl_value_52: "fl (65123 / 1000) = Num (4582623727082013 / 70368744177664)"
  by (rule fl_eval[where e = "- 46" and m = "4582623727082013"]) simp_all

lemma fl_value_53: "fl (1291 / 2) = Num (1291 / 2)"
  by (rule fl_eval[where e = "- 43" and m = "5677878045835264"]) simp_all

lemma fl_value_54: "fl (17618635685027546923 / 4503599627370496) = Num (8602849455579857 / 2199023255552)"
  by (rule fl_eval[where e = "- 41" and m = "8602849455579857"]) simp_all

lemma fl_value_55: "fl (3912123 / 1000) = Num (8602849455579857 / 2199023255552)"
  by (rule fl_eval[where e = "- 41" and m = "8602849455579857"]) simp_all

lemma fl_value_56: "fl (77415 / 2) = Num (77415 / 2)"
  by (rule fl_eval[where e = "- 37" and m = "5319918291517440"]) simp_all

lemma fl_value_57: "fl (90071992547409910992800745259 / 9007199254740992) = Num (5119999999999999 / 512)"
  by (rule fl_eval[where e = "- 9" and m = "5119999999999999"]) simp_all

lemma fl_value_58: "fl (9007199254740993) = Num (9007199254740992)"
  by (rule fl_eval_tie[where e = "1" and m = "4503599627370496"]) simp_all

lemmas fl_values =
  fl_value_1 fl_value_2 fl_value_3 fl_value_4 fl_value_5 fl_value_6 fl_value_7 fl_value_8
  fl_value_9 fl_value_10 fl_value_11 fl_value_12 fl_value_13 fl_value_14 fl_value_15 fl_value_16
  fl_value_17 fl_value_18 fl_value_19 fl_value_20 fl_value_21 fl_value_22 fl_value_23 fl_value_24
  fl_value_25 fl_value_26 fl_value_27 fl_value_28 fl_value_29 fl_value_30 fl_value_31 fl_value_32
  fl_value_33 fl_value_34 fl_value_35 fl_value_36 fl_value_37 fl_value_38 fl_value_39 fl_value_40
  fl_value_41 fl_value_42 fl_value_43 fl_value_44 fl_value_45 fl_value_46 fl_value_47 fl_value_48
  fl_value_49 fl_value_50 fl_value_51 fl_value_52 fl_value_53 fl_value_54 fl_value_55 fl_value_56
  fl_value_57 fl_value_58

section \<open>Rounding to a fixed number of decimals\<close>

lemma nearest_err:
  assumes "0 \<le> x"
  shows "\<bar>of_nat (nearest f x) / 10 ^ f - x\<bar> \<le> 1 / (2 * 10 ^ f)"
proof -
  let ?y = "x * 10 ^ f + 1 / 2"
  have y0: "0 \<le> ?y" using assms by simp
  then have fl0: "0 \<le> \<lfloor>?y\<rfloor>" by simp
  have n: "(of_nat (nearest f x) :: rat) = of_int \<lfloor>?y\<rfloor>"
    unfolding nearest_def using fl0 by simp
  have 1: "of_int \<lfloor>?y\<rfloor> \<le> ?y" by (rule of_int_floor_le)
  have 2: "?y < of_int \<lfloor>?y\<rfloor> + 1" by linarith
  have h: "\<bar>of_int \<lfloor>?y\<rfloor> - x * 10 ^ f\<bar> \<le> (1 / 2 :: rat)" using 1 2 by linarith
  have p: "(0::rat) < 10 ^ f" by simp
  have e: "of_int \<lfloor>?y\<rfloor> / 10 ^ f - x = (of_int \<lfloor>?y\<rfloor> - x * 10 ^ f) / 10 ^ f"
    by (simp add: diff_divide_distrib)
  have "\<bar>(of_int \<lfloor>?y\<rfloor> - x * 10 ^ f) / 10 ^ f\<bar> = \<bar>of_int \<lfloor>?y\<rfloor> - x * 10 ^ f\<bar> / 10 ^ f"
    using p by (simp only: abs_divide abs_of_pos)
  also have "\<dots> \<le> (1 / 2) / 10 ^ f"
    by (rule divide_right_mono[OF h]) simp
  finally show ?thesis using n e by simp
qed

lemma nearest_eqI:
  assumes "\<bar>x * 10 ^ f - of_nat n\<bar> < 1 / 2"
  shows "nearest f x = n"
proof -
  have "\<lfloor>x * 10 ^ f + 1 / 2\<rfloor> = int n"
    by (rule floor_unique) (use assms in \<open>simp_all, linarith+\<close>)
  then show ?thesis by (simp add: nearest_def)
qed

lemma nearest_0_iff:
  assumes "0 \<le> x"
  shows "nearest f x = 0 \<longleftrightarrow> x < 1 / (2 * 10 ^ f)"
proof -
  let ?y = "x * 10 ^ f + 1 / 2"
  have "0 \<le> ?y" using assms by simp
  then have y0: "0 \<le> \<lfloor>?y\<rfloor>" by simp
  have "nearest f x = 0 \<longleftrightarrow> \<lfloor>?y\<rfloor> < 1" using y0 by (simp add: nearest_def)
  also have "\<dots> \<longleftrightarrow> ?y < 1" by (simp add: floor_less_iff)
  also have "\<dots> \<longleftrightarrow> x * 10 ^ f < 1 / 2" by linarith
  also have "\<dots> \<longleftrightarrow> x < (1 / 2) / 10 ^ f" by (rule pos_less_divide_eq[symmetric]) simp
  also have "(1 / 2) / 10 ^ f = 1 / (2 * 10 ^ f :: rat)" by simp
  finally show ?thesis .
qed

lemma Number_toFixed_round:
  assumes "\<bar>q\<bar> < 10 ^ 21"
  shows "\<exists>k::int. Number_toFixed (Num q) f = fl (of_int k / 10 ^ f)
     \<and> \<bar>of_int k / 10 ^ f - q\<bar> \<le> 1 / (2 * 10 ^ f)"
proof (cases "q < 0")
  case True
  let ?k = "- int (nearest f (- q))"
  have "Number_toFixed (Num q) f = fl (of_int ?k / 10 ^ f)"
    using True assms by (simp add: Number_toFixed_def)
  moreover have "of_int ?k / 10 ^ f - q = - (of_nat (nearest f (- q)) / 10 ^ f - (- q))"
    by simp
  then have "\<bar>of_int ?k / 10 ^ f - q\<bar> \<le> 1 / (2 * 10 ^ f)"
    using nearest_err[of "- q" f] True by (simp only: abs_minus_cancel)
  ultimately show ?thesis by blast
next
  case False
  let ?k = "int (nearest f q)"
  have "Number_toFixed (Num q) f = fl (of_int ?k / 10 ^ f)"
    using False assms by (simp add: Number_toFixed_def)
  moreover have "\<bar>of_int ?k / 10 ^ f - q\<bar> \<le> 1 / (2 * 10 ^ f)"
    using nearest_err[of q f] False by simp
  ultimately show ?thesis by blast
qed

lemma fl_not_less_0:
  assumes "0 \<le> x"
  shows "\<not> fl x < Num 0"
proof -
  consider y where "fl x = Num y" | "fl x = PInf" | "fl x = NInf" "x < 0"
    using fl_cases[of x] by blast
  then show ?thesis
  proof cases
    case 1
    then show ?thesis using fl_nonneg[OF 1 assms] by simp
  next
    case 2
    then show ?thesis by simp
  next
    case 3
    then show ?thesis using assms by simp
  qed
qed

lemma fl_less_0:
  assumes "x \<le> - (2 powi j)" "- 1074 \<le> j"
  shows "fl x < Num 0"
proof -
  have neg: "x < 0" using assms(1) pow2_pos[of j] by linarith
  consider y where "fl x = Num y" | "fl x = PInf" "0 < x" | "fl x = NInf"
    using fl_cases[of x] by blast
  then show ?thesis
  proof cases
    case 1
    then show ?thesis using fl_neg[OF 1 assms] by simp
  next
    case 2
    then show ?thesis using neg by simp
  next
    case 3
    then show ?thesis by simp
  qed
qed

lemma Number_toFixed_neg_iff: "Number_toFixed (Num q) 3 < Num 0 \<longleftrightarrow> q \<le> - (1 / 2000)"
proof (cases "10 ^ 21 \<le> \<bar>q\<bar>")
  case True
  then have "Number_toFixed (Num q) 3 = Num q" by (simp add: Number_toFixed_def)
  moreover have "q < 0 \<longleftrightarrow> q \<le> - (1 / 2000)" using True by (simp add: abs_if split: if_splits)
  ultimately show ?thesis by simp
next
  case big: False
  show ?thesis
  proof (cases "q < 0")
    case False
    then have "Number_toFixed (Num q) 3 = fl (of_nat (nearest 3 q) / 10 ^ 3)"
      using big by (simp add: Number_toFixed_def)
    moreover have "\<not> fl (of_nat (nearest 3 q) / 10 ^ 3) < Num 0"
      by (rule fl_not_less_0) simp
    ultimately show ?thesis using False by simp
  next
    case True
    let ?n = "nearest 3 (- q)"
    have r: "Number_toFixed (Num q) 3 = fl (- (of_nat ?n / 10 ^ 3))"
      using big True by (simp add: Number_toFixed_def)
    have z: "?n = 0 \<longleftrightarrow> - q < 1 / 2000" using nearest_0_iff[of "- q" 3] True by simp
    show ?thesis
    proof (cases "?n = 0")
      case True
      then show ?thesis using z r by (simp add: fl_0)
    next
      case False
      then have "1 \<le> (of_nat ?n :: rat)" by simp
      then have "- (of_nat ?n / 10 ^ 3) \<le> - (1 / 1000 :: rat)" by simp
      also have "- (1 / 1000 :: rat) \<le> - (2 powi (- 10))" by simp
      finally have "fl (- (of_nat ?n / 10 ^ 3)) < Num 0" by (rule fl_less_0) simp
      then show ?thesis using z r False by simp
    qed
  qed
qed

lemma Number_toFixed_neg: "Number_toFixed x 3 < Num 0 \<Longrightarrow> x < Num 0"
proof (cases x)
  case (Num q)
  assume "Number_toFixed x 3 < Num 0"
  then have "q \<le> - (1 / 2000)" unfolding Num Number_toFixed_neg_iff .
  then show ?thesis unfolding Num by simp
qed (simp_all add: Number_toFixed_def)


lemmas calc_eval = calculatePaxTime_def mockSoloClass_def mockASClass_def Number_toFixed_def
  nearest_def Let_def floor_rat_numeral double_of_def fl_values fl_numeral fl_neg_numeral fl_0 fl_1

section \<open>Properties of calculatePaxTime\<close>

text \<open>
  C1 (as amended). For a positive input time and classes with positive indices, the
  conversion succeeds. Its \<open>outputTime\<close> is the double product \<open>t * (a / b)\<close>, each
  operation rounded, passed through \<open>toFixed(3)\<close> and \<open>Number\<close>: for a product below
  \<open>10^21\<close>, the double nearest to a multiple of \<open>1/1000\<close> that is within \<open>1/2000\<close> of the
  product. Its \<open>timeDifference\<close> is obtained in the same way from the unrounded
  difference, the product minus \<open>t\<close>: it is computed from the unrounded output time, not
  from the rounded one.
\<close>

theorem calculatePaxTime_rounding:
  assumes "0 < t" "0 < paxIndex a" "0 < paxIndex b"
  shows "\<exists>r. calculatePaxTime now t a b = Inr r
     \<and> inputTime r = t
     \<and> outputTime r = Number_toFixed (Num t * (Num (paxIndex a) / Num (paxIndex b))) 3
     \<and> timeDifference r =
         Number_toFixed (Num t * (Num (paxIndex a) / Num (paxIndex b)) - Num t) 3
     \<and> (\<forall>q. Num t * (Num (paxIndex a) / Num (paxIndex b)) = Num q \<and> \<bar>q\<bar> < 10 ^ 21 \<longrightarrow>
          (\<exists>k::int. outputTime r = fl (of_int k / 1000) \<and> \<bar>of_int k / 1000 - q\<bar> \<le> 1 / 2000))
     \<and> (\<forall>d. Num t * (Num (paxIndex a) / Num (paxIndex b)) - Num t = Num d \<and> \<bar>d\<bar> < 10 ^ 21 \<longrightarrow>
          (\<exists>k::int. timeDifference r = fl (of_int k / 1000) \<and> \<bar>of_int k / 1000 - d\<bar> \<le> 1 / 2000))"
proof -
  let ?o = "Num t * (Num (paxIndex a) / Num (paxIndex b))"
  let ?r = "\<lparr> inputTime = t, inputClass = a, outputTime = Number_toFixed ?o 3, outputClass = b,
              timeDifference = Number_toFixed (?o - Num t) 3, isFaster = (?o - Num t < Num 0),
              calculatedAt = now \<rparr>"
  have r: "calculatePaxTime now t a b = Inr ?r"
    using assms by (simp add: calculatePaxTime_def Let_def)
  have k: "\<And>x q. x = Num q \<and> \<bar>q\<bar> < 10 ^ 21 \<longrightarrow>
      (\<exists>k::int. Number_toFixed x 3 = fl (of_int k / 1000) \<and> \<bar>of_int k / 1000 - q\<bar> \<le> 1 / 2000)"
    using Number_toFixed_round[where f = 3] by auto
  show ?thesis unfolding r using k by simp
qed

theorem calculatePaxTime_rounding_witness:
  "(0::rat) < double_of (20467 / 1000) \<and> 0 < paxIndex mockASClass \<and> 0 < paxIndex mockSoloClass
   \<and> (\<exists>r. calculatePaxTime ''2024-01-01T00:00:00.000Z'' (double_of (20467 / 1000))
              mockASClass mockSoloClass = Inr r
        \<and> outputTime r = fl (20127 / 1000) \<and> timeDifference r = fl (- (340 / 1000)))
   \<and> (\<exists>r. calculatePaxTime ''2024-01-01T00:00:00.000Z'' 60 mockSoloClass mockASClass = Inr r
        \<and> outputTime r = fl (61012 / 1000) \<and> timeDifference r = fl (1012 / 1000))"
  using calculatePaxTime_rounding[of "double_of (20467 / 1000)" mockASClass mockSoloClass
      "''2024-01-01T00:00:00.000Z''"]
    calculatePaxTime_rounding[of 60 mockSoloClass mockASClass "''2024-01-01T00:00:00.000Z''"]
  by (simp add: calc_eval)

text \<open>
  C1 as stated fails: for the input time 1.0004 and twice the same class the output time
  is 1 and the time difference is 0, while the rounded output time minus the input time
  is the double \<open>1 - 1.0004\<close>, which is below \<open>-0.0003\<close>.
\<close>

theorem timeDifference_from_rounded_output_counterexample:
  "calculatePaxTime ''2024-01-01T00:00:00.000Z'' (double_of (10004 / 10000)) mockSoloClass mockSoloClass =
     Inr \<lparr> inputTime = double_of (10004 / 10000), inputClass = mockSoloClass, outputTime = Num 1,
           outputClass = mockSoloClass, timeDifference = Num 0, isFaster = False,
           calculatedAt = ''2024-01-01T00:00:00.000Z'' \<rparr>
   \<and> Num 1 - Num (double_of (10004 / 10000)) = Num (- (450359962737 / 1125899906842624))
   \<and> - (450359962737 / 1125899906842624) < - (3 / 10000 :: rat)"
  by (simp add: calc_eval)

text \<open>
  C2 (as amended). \<open>isFaster\<close> is true exactly when the unrounded double difference
  \<open>t * (a / b) - t\<close> is negative, while the rounded \<open>timeDifference\<close> of the result is
  negative exactly when that difference, when finite, is at most \<open>-1/2000\<close>. A negative
  \<open>timeDifference\<close> therefore implies \<open>isFaster\<close>, and the converse fails for the
  differences strictly between \<open>-1/2000\<close> and 0, whose \<open>timeDifference\<close> is zero.
\<close>

theorem isFaster_unrounded:
  assumes "calculatePaxTime now t a b = Inr r"
  shows "(isFaster r \<longleftrightarrow> Num t * (Num (paxIndex a) / Num (paxIndex b)) - Num t < Num 0)
     \<and> (\<forall>d. Num t * (Num (paxIndex a) / Num (paxIndex b)) - Num t = Num d \<longrightarrow>
          (timeDifference r < Num 0 \<longleftrightarrow> d \<le> - (1 / 2000)))
     \<and> (timeDifference r < Num 0 \<longrightarrow> isFaster r)"
proof -
  let ?d = "Num t * (Num (paxIndex a) / Num (paxIndex b)) - Num t"
  have f: "isFaster r \<longleftrightarrow> ?d < Num 0" and td: "timeDifference r = Number_toFixed ?d 3"
    using assms by (auto simp: calculatePaxTime_def Let_def split: if_splits)
  have n: "\<forall>d. ?d = Num d \<longrightarrow> (timeDifference r < Num 0 \<longleftrightarrow> d \<le> - (1 / 2000))"
    unfolding td using Number_toFixed_neg_iff by simp
  have "timeDifference r < Num 0 \<longrightarrow> isFaster r"
    unfolding td f using Number_toFixed_neg by blast
  then show ?thesis using f n by blast
qed

theorem isFaster_unrounded_witness:
  "calculatePaxTime ''2024-01-01T00:00:00.000Z'' 60 mockASClass mockSoloClass =
     Inr \<lparr> inputTime = 60, inputClass = mockASClass, outputTime = fl (59005 / 1000),
           outputClass = mockSoloClass, timeDifference = fl (- (995 / 1000)), isFaster = True,
           calculatedAt = ''2024-01-01T00:00:00.000Z'' \<rparr>
   \<and> Num 60 * (Num (paxIndex mockASClass) / Num (paxIndex mockSoloClass)) - Num 60
        = Num (- (8754405377553 / 8796093022208))
   \<and> - (8754405377553 / 8796093022208) \<le> - (1 / 2000 :: rat)
   \<and> fl (- (995 / 1000)) < Num 0
   \<and> calculatePaxTime ''2024-01-01T00:00:00.000Z'' (double_of (16 / 1000))
        (mockASClass\<lparr>paxIndex := double_of (806 / 1000)\<rparr>)
        (mockSoloClass\<lparr>paxIndex := double_of (832 / 1000)\<rparr>) =
     Inr \<lparr> inputTime = double_of (16 / 1000),
           inputClass = mockASClass\<lparr>paxIndex := double_of (806 / 1000)\<rparr>,
           outputTime = fl (16 / 1000),
           outputClass = mockSoloClass\<lparr>paxIndex := double_of (832 / 1000)\<rparr>,
           timeDifference = Num 0, isFaster = True,
           calculatedAt = ''2024-01-01T00:00:00.000Z'' \<rparr>
   \<and> Num (double_of (16 / 1000)) * (Num (double_of (806 / 1000)) / Num (double_of (832 / 1000)))
        - Num (double_of (16 / 1000)) = Num (- (288230376151711 / 576460752303423488))
   \<and> \<not> - (288230376151711 / 576460752303423488) \<le> - (1 / 2000 :: rat)
   \<and> - (288230376151711 / 576460752303423488) < (0 :: rat)"
proof -
  let ?a = "mockASClass\<lparr>paxIndex := double_of (806 / 1000)\<rparr>"
  let ?b = "mockSoloClass\<lparr>paxIndex := double_of (832 / 1000)\<rparr>"
  have r: "calculatePaxTime ''2024-01-01T00:00:00.000Z'' 60 mockASClass mockSoloClass =
     Inr \<lparr> inputTime = 60, inputClass = mockASClass, outputTime = fl (59005 / 1000),
           outputClass = mockSoloClass, timeDifference = fl (- (995 / 1000)), isFaster = True,
           calculatedAt = ''2024-01-01T00:00:00.000Z'' \<rparr>"
    by (simp add: calc_eval)
  have d: "Num 60 * (Num (paxIndex mockASClass) / Num (paxIndex mockSoloClass)) - Num 60
        = Num (- (8754405377553 / 8796093022208))"
    by (simp add: calc_eval)
  have r': "calculatePaxTime ''2024-01-01T00:00:00.000Z'' (double_of (16 / 1000)) ?a ?b =
     Inr \<lparr> inputTime = double_of (16 / 1000), inputClass = ?a, outputTime = fl (16 / 1000),
           outputClass = ?b, timeDifference = Num 0, isFaster = True,
           calculatedAt = ''2024-01-01T00:00:00.000Z'' \<rparr>"
    by (simp add: calc_eval)
  have d': "Num (double_of (16 / 1000)) * (Num (paxIndex ?a) / Num (paxIndex ?b))
        - Num (double_of (16 / 1000)) = Num (- (288230376151711 / 576460752303423488))"
    by (simp add: calc_eval)
  show ?thesis using isFaster_unrounded[OF r] isFaster_unrounded[OF r'] r d r' d' by simp
qed

text \<open>
  C2 as stated fails: converting 0.01 from class AS (0.83) to class SS (0.844) gives a
  difference of about -0.000166, so \<open>isFaster\<close> is true and the rounded \<open>timeDifference\<close>
  is the zero that \<open>-0.000\<close> denotes, which is not negative.
\<close>

theorem isFaster_rounded_difference_counterexample:
  "calculatePaxTime ''2024-01-01T00:00:00.000Z'' (double_of (1 / 100)) mockASClass mockSoloClass =
     Inr \<lparr> inputTime = double_of (1 / 100), inputClass = mockASClass, outputTime = fl (1 / 100),
           outputClass = mockSoloClass, timeDifference = Num 0, isFaster = True,
           calculatedAt = ''2024-01-01T00:00:00.000Z'' \<rparr>
   \<and> \<not> Num 0 < Num 0"
  by (simp add: calc_eval)




text \<open>
  C4. The conversion fails with the message about the input time exactly when the input
  time is not positive, whatever the classes are; for a positive input time it fails with
  the single message about the PAX indices exactly when the index of either class is not
  positive; the two messages differ; and it fails in no other way.
\<close>

theorem calculatePaxTime_errors:
  "(calculatePaxTime now t a b = Inl (Error ''Input time must be greater than 0'') \<longleftrightarrow> t \<le> 0)
   \<and> (calculatePaxTime now t a b = Inl (Error ''PAX indices must be greater than 0'')
        \<longleftrightarrow> 0 < t \<and> (paxIndex a \<le> 0 \<or> paxIndex b \<le> 0))
   \<and> Error ''Input time must be greater than 0'' \<noteq> Error ''PAX indices must be greater than 0''
   \<and> (isl (calculatePaxTime now t a b) \<longleftrightarrow> t \<le> 0 \<or> paxIndex a \<le> 0 \<or> paxIndex b \<le> 0)"
  by (auto simp: calculatePaxTime_def Let_def)

theorem calculatePaxTime_errors_witness:
  "calculatePaxTime ''2024-01-01T00:00:00.000Z'' 0 mockSoloClass mockASClass =
     Inl (Error ''Input time must be greater than 0'')
   \<and> calculatePaxTime ''2024-01-01T00:00:00.000Z'' (- 5) (mockSoloClass\<lparr>paxIndex := 0\<rparr>) mockASClass =
     Inl (Error ''Input time must be greater than 0'')
   \<and> calculatePaxTime ''2024-01-01T00:00:00.000Z'' 60 (mockSoloClass\<lparr>paxIndex := 0\<rparr>) mockASClass =
     Inl (Error ''PAX indices must be greater than 0'')
   \<and> calculatePaxTime ''2024-01-01T00:00:00.000Z'' 60 mockSoloClass (mockSoloClass\<lparr>paxIndex := 0\<rparr>) =
     Inl (Error ''PAX indices must be greater than 0'')
   \<and> \<not> isl (calculatePaxTime ''2024-01-01T00:00:00.000Z'' 60 mockSoloClass mockASClass)"
  using calculatePaxTime_errors[of "''2024-01-01T00:00:00.000Z''" 0 mockSoloClass mockASClass]
    calculatePaxTime_errors[of "''2024-01-01T00:00:00.000Z''" "- 5" "mockSoloClass\<lparr>paxIndex := 0\<rparr>" mockASClass]
    calculatePaxTime_errors[of "''2024-01-01T00:00:00.000Z''" 60 "mockSoloClass\<lparr>paxIndex := 0\<rparr>" mockASClass]
    calculatePaxTime_errors[of "''2024-01-01T00:00:00.000Z''" 60 mockSoloClass "mockSoloClass\<lparr>paxIndex := 0\<rparr>"]
    calculatePaxTime_errors[of "''2024-01-01T00:00:00.000Z''" 60 mockSoloClass mockASClass]
  by (simp add: mockSoloClass_def mockASClass_def double_of_def fl_values)

section \<open>The matcher finds exactly the strings of the language\<close>

lemma first_some_Some: "first_some xs = Some y \<Longrightarrow> Some y \<in> set xs"
  by (induction xs rule: first_some.induct) auto

lemma takeWhile_take_all: "k \<le> length (takeWhile P s) \<Longrightarrow> list_all P (take k s)"
proof (induction s arbitrary: k)
  case Nil then show ?case by simp
next
  case (Cons a s)
  then show ?case by (cases k) (auto split: if_splits)
qed

lemma match_captures_sound: "match_captures p s = Some caps \<Longrightarrow> fits p caps s"
proof (induction p arbitrary: s caps)
  case Nil
  then show ?case by (simp split: if_splits)
next
  case (Cons a p)
  show ?case
  proof (cases a)
    case (Lit c)
    with Cons show ?thesis by (cases s) (auto split: if_splits)
  next
    case (Digits lo hi)
    define n where "n = length (takeWhile isDigit s)"
    define top where "top = (case hi of None \<Rightarrow> n | Some h \<Rightarrow> min h n)"
    from Cons.prems Digits
    have "first_some (map (\<lambda>k. map_option ((#) (take k s)) (match_captures p (drop k s)))
            (rev [lo..<Suc top])) = Some caps"
      unfolding top_def n_def by (simp add: Let_def del: upt_Suc)
    from first_some_Some[OF this]
    have "Some caps \<in> (\<lambda>k. map_option ((#) (take k s)) (match_captures p (drop k s))) ` {lo..<Suc top}"
      by (simp del: upt_Suc)
    then obtain k where kk: "k \<in> {lo..<Suc top}"
      and m': "Some caps = map_option ((#) (take k s)) (match_captures p (drop k s))"
      by (rule imageE)
    have k: "lo \<le> k" "k \<le> top" using kk by simp_all
    have m: "map_option ((#) (take k s)) (match_captures p (drop k s)) = Some caps"
      using m' by simp
    from m obtain ds where ds: "match_captures p (drop k s) = Some ds" "caps = take k s # ds"
      by auto
    have kn: "k \<le> n" using k(2) by (auto simp: top_def split: option.splits)
    have "n \<le> length s" unfolding n_def by (rule length_takeWhile_le)
    then have len: "length (take k s) = k" using kn by simp
    have dig: "list_all isDigit (take k s)" using kn unfolding n_def by (rule takeWhile_take_all)
    have hi: "(case hi of None \<Rightarrow> True | Some h \<Rightarrow> k \<le> h)"
      using k(2) by (auto simp: top_def split: option.splits)
    have "digit_run lo hi (take k s)"
      unfolding digit_run_def len using dig k(1) hi by simp
    moreover have "fits p ds (drop k s)" using Cons.IH ds(1) by blast
    moreover have "s = take k s @ drop k s" by simp
    ultimately show ?thesis using Digits ds(2) by (simp del: append_take_drop_id) blast
  qed
qed

lemma takeWhile_digits_end: "list_all P d \<Longrightarrow> takeWhile P d = d"
  by (induction d) auto

lemma takeWhile_digits_stop: "list_all P d \<Longrightarrow> \<not> P c \<Longrightarrow> takeWhile P (d @ c # r) = d"
  by (induction d) auto

lemma match_captures_complete: "separated p \<Longrightarrow> fits p caps s \<Longrightarrow> match_captures p s = Some caps"
proof (induction p arbitrary: s caps rule: separated.induct)
  case 1
  then show ?case by simp
next
  case (2 c p)
  then show ?case by auto
next
  case (3 lo hi)
  then obtain d where d: "caps = [d]" "s = d" "digit_run lo hi d" by auto
  have n: "length (takeWhile isDigit s) = length d"
    using d by (simp add: digit_run_def takeWhile_digits_end)
  have top: "(case hi of None \<Rightarrow> length d | Some h \<Rightarrow> min h (length d)) = length d"
    using d(3) by (auto simp: digit_run_def split: option.splits)
  have ks: "rev [lo..<Suc (length d)] = length d # rev [lo..<length d]"
    using d(3) by (simp add: digit_run_def)
  have "match_captures [Digits lo hi] s =
      first_some (map (\<lambda>k. map_option ((#) (take k s)) (match_captures [] (drop k s)))
        (rev [lo..<Suc (length d)]))"
    by (simp add: n top Let_def del: upt_Suc)
  also have "\<dots> = Some [d]" unfolding ks using d(2) by simp
  finally show ?case using d(1) by simp
next
  case (4 lo hi c p)
  from 4(3) obtain d ds s' where d: "caps = d # ds" "s = d @ s'" "digit_run lo hi d"
    "fits (Lit c # p) ds s'" by auto
  from d(4) obtain r where r: "s' = c # r" "fits p ds r" by auto
  have n: "length (takeWhile isDigit s) = length d"
    using d r 4(2) by (simp add: digit_run_def takeWhile_digits_stop)
  have top: "(case hi of None \<Rightarrow> length d | Some h \<Rightarrow> min h (length d)) = length d"
    using d(3) by (auto simp: digit_run_def split: option.splits)
  have ks: "rev [lo..<Suc (length d)] = length d # rev [lo..<length d]"
    using d(3) by (simp add: digit_run_def)
  have ih: "match_captures (Lit c # p) s' = Some ds"
    using 4(1)[of ds r] 4(2) r by simp
  have "match_captures (Digits lo hi # Lit c # p) s =
      first_some (map (\<lambda>k. map_option ((#) (take k s)) (match_captures (Lit c # p) (drop k s)))
        (rev [lo..<Suc (length d)]))"
    by (simp add: n top Let_def del: upt_Suc match_captures.simps(2))
  also have "\<dots> = Some (d # ds)" unfolding ks using d(2) ih by (simp del: match_captures.simps(2))
  finally show ?case using d(1) by simp
next
  case (5 lo hi lo' hi' p)
  then show ?case by simp
qed

lemma match_iff_fits:
  assumes "separated p"
  shows "match_captures p s = Some caps \<longleftrightarrow> fits p caps s"
  using assms match_captures_sound match_captures_complete by blast

lemma separated_res: "separated minutesRe" "separated hoursRe" "separated decimalRe" "separated wholeRe"
  by (simp_all add: minutesRe_def hoursRe_def decimalRe_def wholeRe_def isDigit_def)

lemma fits_minutes: "fits minutesRe caps s \<longleftrightarrow> (\<exists>m sec ms. caps = [m, sec, ms] \<and> s = m @ '':'' @ sec @ ''.'' @ ms
      \<and> digit_run 1 None m \<and> digit_run 1 (Some 2) sec \<and> digit_run 1 (Some 3) ms)"
  unfolding minutesRe_def by auto

lemma fits_hours: "fits hoursRe caps s \<longleftrightarrow> (\<exists>h m sec ms. caps = [h, m, sec, ms] \<and> s = h @ '':'' @ m @ '':'' @ sec @ ''.'' @ ms
      \<and> digit_run 1 None h \<and> digit_run 1 (Some 2) m \<and> digit_run 1 (Some 2) sec
      \<and> digit_run 1 (Some 3) ms)"
  unfolding hoursRe_def by auto

lemma fits_decimal: "fits decimalRe caps s \<longleftrightarrow> (\<exists>sec ms. caps = [sec, ms] \<and> s = sec @ ''.'' @ ms
      \<and> digit_run 1 None sec \<and> digit_run 1 (Some 3) ms)"
  unfolding decimalRe_def by auto

lemma fits_whole: "fits wholeRe caps s \<longleftrightarrow> (caps = [s] \<and> digit_run 1 None s)"
  unfolding wholeRe_def by auto

lemma regex_minutes_None: "regex_match minutesRe s = None \<longleftrightarrow> \<not> grammar_minutes s"
proof -
  have "grammar_minutes s \<longleftrightarrow> (\<exists>caps. match_captures minutesRe s = Some caps)"
    unfolding match_iff_fits[OF separated_res(1)] fits_minutes grammar_minutes_def by blast
  then show ?thesis by (auto simp: regex_match_def)
qed

lemma regex_hours_None: "regex_match hoursRe s = None \<longleftrightarrow> \<not> grammar_hours s"
proof -
  have "grammar_hours s \<longleftrightarrow> (\<exists>caps. match_captures hoursRe s = Some caps)"
    unfolding match_iff_fits[OF separated_res(2)] fits_hours grammar_hours_def by blast
  then show ?thesis by (auto simp: regex_match_def)
qed

lemma regex_decimal_None: "regex_match decimalRe s = None \<longleftrightarrow> \<not> grammar_decimal s"
proof -
  have "grammar_decimal s \<longleftrightarrow> (\<exists>caps. match_captures decimalRe s = Some caps)"
    unfolding match_iff_fits[OF separated_res(3)] fits_decimal grammar_decimal_def by blast
  then show ?thesis by (auto simp: regex_match_def)
qed

lemma regex_whole_None: "regex_match wholeRe s = None \<longleftrightarrow> \<not> grammar_whole s"
proof -
  have "grammar_whole s \<longleftrightarrow> (\<exists>caps. match_captures wholeRe s = Some caps)"
    unfolding match_iff_fits[OF separated_res(4)] fits_whole grammar_whole_def by blast
  then show ?thesis by (auto simp: regex_match_def)
qed

lemma trim_Nil: "trim [] = []" by (simp add: trim_def)

lemma parse_fails_iff:
  "isl (parseTimeString t) \<longleftrightarrow>
     trim t = [] \<or> \<not> (grammar_minutes (trim t) \<or> grammar_hours (trim t)
        \<or> grammar_decimal (trim t) \<or> grammar_whole (trim t))"
proof (cases "trim t = []")
  case True
  then show ?thesis by (simp add: parseTimeString_def)
next
  case False
  then have t: "t \<noteq> []" using trim_Nil by auto
  show ?thesis
    using False t regex_minutes_None[of "trim t"] regex_hours_None[of "trim t"]
      regex_decimal_None[of "trim t"] regex_whole_None[of "trim t"]
    by (auto simp: parseTimeString_def Let_def split: option.splits)
qed

section \<open>What parseTimeString returns\<close>

lemma isDigit_not_sep: "isDigit c \<Longrightarrow> c \<noteq> CHR '':'' \<and> c \<noteq> CHR ''.''"
  by (auto simp: isDigit_def)

lemma digits_count:
  "list_all isDigit d \<Longrightarrow> count_list d CHR '':'' = 0 \<and> count_list d CHR ''.'' = 0"
  by (induction d) (simp_all add: isDigit_not_sep)

lemma digit_run_count:
  assumes "digit_run lo hi d"
  shows "count_list d CHR '':'' = 0" "count_list d CHR ''.'' = 0"
  using assms digits_count[of d] by (simp_all add: digit_run_def)

lemma grammar_minutes_count:
  assumes "grammar_minutes s" shows "count_list s CHR '':'' = 1"
proof -
  from assms obtain m sec ms where s: "s = m @ '':'' @ sec @ ''.'' @ ms"
    and r: "digit_run 1 None m" "digit_run 1 (Some 2) sec" "digit_run 1 (Some 3) ms"
    unfolding grammar_minutes_def by blast
  show ?thesis unfolding s
    by (simp add: digit_run_count[OF r(1)] digit_run_count[OF r(2)] digit_run_count[OF r(3)])
qed

lemma grammar_hours_count:
  assumes "grammar_hours s" shows "count_list s CHR '':'' = 2"
proof -
  from assms obtain h m sec ms where s: "s = h @ '':'' @ m @ '':'' @ sec @ ''.'' @ ms"
    and r: "digit_run 1 None h" "digit_run 1 (Some 2) m" "digit_run 1 (Some 2) sec"
      "digit_run 1 (Some 3) ms"
    unfolding grammar_hours_def by blast
  show ?thesis unfolding s
    by (simp add: digit_run_count[OF r(1)] digit_run_count[OF r(2)] digit_run_count[OF r(3)]
        digit_run_count[OF r(4)])
qed

lemma grammar_decimal_count:
  assumes "grammar_decimal s"
  shows "count_list s CHR '':'' = 0 \<and> count_list s CHR ''.'' = 1"
proof -
  from assms obtain sec ms where s: "s = sec @ ''.'' @ ms"
    and r: "digit_run 1 None sec" "digit_run 1 (Some 3) ms"
    unfolding grammar_decimal_def by blast
  show ?thesis unfolding s
    by (simp add: digit_run_count[OF r(1)] digit_run_count[OF r(2)])
qed

lemma grammar_whole_count:
  "grammar_whole s \<Longrightarrow> count_list s CHR '':'' = 0 \<and> count_list s CHR ''.'' = 0"
  unfolding grammar_whole_def using digit_run_count[of 1 None s] by simp

lemma regex_minutes_Some:
  assumes "digit_run 1 None m" "digit_run 1 (Some 2) sec" "digit_run 1 (Some 3) ms"
  shows "regex_match minutesRe (m @ '':'' @ sec @ ''.'' @ ms)
           = Some [m @ '':'' @ sec @ ''.'' @ ms, m, sec, ms]"
proof -
  have "fits minutesRe [m, sec, ms] (m @ '':'' @ sec @ ''.'' @ ms)"
    unfolding fits_minutes using assms by blast
  then show ?thesis
    by (simp add: regex_match_def match_iff_fits[OF separated_res(1)])
qed

lemma regex_hours_Some:
  assumes "digit_run 1 None h" "digit_run 1 (Some 2) m" "digit_run 1 (Some 2) sec"
    "digit_run 1 (Some 3) ms"
  shows "regex_match hoursRe (h @ '':'' @ m @ '':'' @ sec @ ''.'' @ ms)
           = Some [h @ '':'' @ m @ '':'' @ sec @ ''.'' @ ms, h, m, sec, ms]"
proof -
  have "fits hoursRe [h, m, sec, ms] (h @ '':'' @ m @ '':'' @ sec @ ''.'' @ ms)"
    unfolding fits_hours using assms by blast
  then show ?thesis
    by (simp add: regex_match_def match_iff_fits[OF separated_res(2)])
qed

lemma regex_decimal_Some:
  assumes "digit_run 1 None sec" "digit_run 1 (Some 3) ms"
  shows "regex_match decimalRe (sec @ ''.'' @ ms) = Some [sec @ ''.'' @ ms, sec, ms]"
proof -
  have "fits decimalRe [sec, ms] (sec @ ''.'' @ ms)"
    unfolding fits_decimal using assms by blast
  then show ?thesis
    by (simp add: regex_match_def match_iff_fits[OF separated_res(3)])
qed

lemma regex_whole_Some:
  assumes "digit_run 1 None s"
  shows "regex_match wholeRe s = Some [s, s]"
proof -
  have "fits wholeRe [s] s" unfolding fits_whole using assms by blast
  then show ?thesis
    by (simp add: regex_match_def match_iff_fits[OF separated_res(4)])
qed

lemma isDigit_not_space: "isDigit c \<Longrightarrow> \<not> isWhiteSpace c"
  by (auto simp: isDigit_def isWhiteSpace_def)

lemma dropWhile_hd: "s \<noteq> [] \<Longrightarrow> \<not> P (hd s) \<Longrightarrow> dropWhile P s = s"
  by (cases s) auto

lemma trim_id:
  assumes "s \<noteq> []" "\<not> isWhiteSpace (hd s)" "\<not> isWhiteSpace (last s)"
  shows "trim s = s"
proof -
  have 1: "dropWhile isWhiteSpace s = s" using assms(1,2) by (rule dropWhile_hd)
  have "hd (rev s) = last s" using assms(1) by (simp add: hd_rev)
  then have 2: "dropWhile isWhiteSpace (rev s) = rev s"
    using assms(1,3) dropWhile_hd[of "rev s" isWhiteSpace] by simp
  show ?thesis by (simp add: trim_def 1 2)
qed

lemma digit_run_ends:
  assumes "digit_run 1 hi d"
  shows "d \<noteq> []" "isDigit (hd d)" "isDigit (last d)"
proof -
  show d: "d \<noteq> []" using assms by (auto simp: digit_run_def)
  have "list_all isDigit d" using assms by (simp add: digit_run_def)
  then show "isDigit (hd d)" "isDigit (last d)" using d by (auto simp: list_all_iff)
qed

lemma trim_digits_ends:
  assumes "digit_run 1 hi a" "digit_run 1 hi' b"
  shows "trim (a @ x @ b) = a @ x @ b"
proof (rule trim_id)
  show "a @ x @ b \<noteq> []" using digit_run_ends(1)[OF assms(1)] by simp
  show "\<not> isWhiteSpace (hd (a @ x @ b))"
    using digit_run_ends(1,2)[OF assms(1)] by (simp add: isDigit_not_space)
  show "\<not> isWhiteSpace (last (a @ x @ b))"
    using digit_run_ends(1,3)[OF assms(2)] by (simp add: isDigit_not_space)
qed

lemma trim_digits: "digit_run 1 hi a \<Longrightarrow> trim a = a"
  using digit_run_ends[of hi a] by (simp add: trim_id isDigit_not_space)

lemma parse_minutes:
  assumes "digit_run 1 None m" "digit_run 1 (Some 2) sec" "digit_run 1 (Some 3) ms"
  shows "parseTimeString (m @ '':'' @ sec @ ''.'' @ ms) =
     Inr (parseInt m * Num 60 + parseInt sec + parseInt (padEnd ms 3 CHR ''0'') / Num 1000)"
proof -
  let ?s = "m @ '':'' @ sec @ ''.'' @ ms"
  have t: "trim ?s = ?s" using trim_digits_ends[OF assms(1,3), of "'':'' @ sec @ ''.''"] by simp
  show ?thesis
    unfolding parseTimeString_def t Let_def regex_minutes_Some[OF assms]
    by simp
qed

lemma parse_hours:
  assumes "digit_run 1 None h" "digit_run 1 (Some 2) m" "digit_run 1 (Some 2) sec"
    "digit_run 1 (Some 3) ms"
  shows "parseTimeString (h @ '':'' @ m @ '':'' @ sec @ ''.'' @ ms) =
     Inr (parseInt h * Num 3600 + parseInt m * Num 60 + parseInt sec
          + parseInt (padEnd ms 3 CHR ''0'') / Num 1000)"
proof -
  let ?s = "h @ '':'' @ m @ '':'' @ sec @ ''.'' @ ms"
  have t: "trim ?s = ?s"
    using trim_digits_ends[OF assms(1,4), of "'':'' @ m @ '':'' @ sec @ ''.''"] by simp
  have g: "grammar_hours ?s" unfolding grammar_hours_def using assms by blast
  have n: "regex_match minutesRe ?s = None"
    unfolding regex_minutes_None using grammar_hours_count[OF g] grammar_minutes_count[of ?s]
    by auto
  show ?thesis
    unfolding parseTimeString_def t Let_def n regex_hours_Some[OF assms]
    by simp
qed

lemma parse_decimal:
  assumes "digit_run 1 None sec" "digit_run 1 (Some 3) ms"
  shows "parseTimeString (sec @ ''.'' @ ms) =
     Inr (parseInt sec + parseInt (padEnd ms 3 CHR ''0'') / Num 1000)"
proof -
  let ?s = "sec @ ''.'' @ ms"
  have t: "trim ?s = ?s" using trim_digits_ends[OF assms, of "''.''"] by simp
  have g: "grammar_decimal ?s" unfolding grammar_decimal_def using assms by blast
  have n: "regex_match minutesRe ?s = None"
    unfolding regex_minutes_None using grammar_decimal_count[OF g] grammar_minutes_count[of ?s]
    by auto
  have n2: "regex_match hoursRe ?s = None"
    unfolding regex_hours_None using grammar_decimal_count[OF g] grammar_hours_count[of ?s]
    by auto
  show ?thesis
    unfolding parseTimeString_def t Let_def n n2 regex_decimal_Some[OF assms]
    by simp
qed

lemma parse_whole:
  assumes "digit_run 1 None s"
  shows "parseTimeString s = Inr (parseInt s)"
proof -
  have t: "trim s = s" using trim_digits[OF assms] .
  have g: "grammar_whole s" unfolding grammar_whole_def using assms .
  have n: "regex_match minutesRe s = None"
    unfolding regex_minutes_None using grammar_whole_count[OF g] grammar_minutes_count[of s]
    by auto
  have n2: "regex_match hoursRe s = None"
    unfolding regex_hours_None using grammar_whole_count[OF g] grammar_hours_count[of s]
    by auto
  have n3: "regex_match decimalRe s = None"
    unfolding regex_decimal_None using grammar_whole_count[OF g] grammar_decimal_count[of s]
    by auto
  have s: "s \<noteq> []" using digit_run_ends(1)[OF assms] .
  show ?thesis
    unfolding parseTimeString_def t Let_def n n2 n3 regex_whole_Some[OF assms]
    using s by simp
qed

subsection \<open>The value of a run of digits\<close>

lemma foldl_digits:
  "foldl (\<lambda>n c. 10 * n + (of_char c - of_char CHR ''0'')) n s =
     n * 10 ^ length s + foldl (\<lambda>n c. 10 * n + (of_char c - of_char CHR ''0'')) (0::nat) s"
proof (induction s arbitrary: n)
  case Nil
  then show ?case by simp
next
  case (Cons c s)
  show ?case
    by (subst (2) foldl_Cons, subst foldl_Cons, subst Cons.IH, subst (2) Cons.IH)
      (simp add: algebra_simps)
qed

lemma digit_value_append: "digit_value (a @ b) = digit_value a * 10 ^ length b + digit_value b"
  unfolding digit_value_def foldl_append by (rule foldl_digits)

lemma digit_value_zeros: "digit_value (replicate k CHR ''0'') = 0"
  by (induction k) (simp_all add: digit_value_def)

lemma digit_value_padEnd:
  "digit_value (padEnd ms k CHR ''0'') = digit_value ms * 10 ^ (k - length ms)"
  by (simp add: padEnd_def digit_value_append digit_value_zeros)

lemma replicate_numeral: "replicate (numeral k) x = x # replicate (pred_numeral k) x"
  by (simp add: numeral_eq_Suc)

lemma digit_char_lt: "n < 10 \<Longrightarrow> (of_char (digit_char n) :: nat) - 48 = n"
proof -
  assume "n < 10"
  then have "n \<in> {0, 1, 2, 3, 4, 5, 6, 7, 8, 9}" by auto
  then show ?thesis by (elim insertE emptyE) (simp_all add: digit_char_def)
qed

lemma digit_value_decimal: "digit_value (decimal n) = n"
proof (induction n rule: decimal.induct)
  case (1 n)
  show ?case
  proof (cases "n < 10")
    case True
    then show ?thesis by (subst decimal.simps) (simp add: digit_value_def digit_char_lt)
  next
    case False
    then have "digit_value (decimal (n div 10)) = n div 10" using 1 by simp
    moreover have "n mod 10 < 10" by simp
    ultimately show ?thesis using False
      by (subst decimal.simps) (simp add: digit_value_append digit_value_def digit_char_lt)
  qed
qed

lemma digit_char_val: "isDigit c \<Longrightarrow> digit_char (of_char c - of_char CHR ''0'') = c"
  by (auto simp: isDigit_def digit_char_def)

lemma digit_val_lt: "isDigit c \<Longrightarrow> (of_char c :: nat) - of_char CHR ''0'' < 10"
  by (auto simp: isDigit_def)

lemma digit_value_snoc:
  "digit_value (xs @ [c]) = 10 * digit_value xs + (of_char c - of_char CHR ''0'')"
  by (simp add: digit_value_def)

lemma digit_value_lt: "list_all isDigit d \<Longrightarrow> digit_value d < 10 ^ length d"
proof (induction d rule: rev_induct)
  case Nil
  then show ?case by (simp add: digit_value_def)
next
  case (snoc c xs)
  have "isDigit c" using snoc.prems by simp
  then have "(of_char c :: nat) - of_char CHR ''0'' < 10" by (rule digit_val_lt)
  moreover have "digit_value xs < 10 ^ length xs" using snoc by simp
  ultimately show ?case unfolding digit_value_snoc by simp
qed

lemma digit_value_le:
  assumes "list_all isDigit d" "length d \<le> k"
  shows "digit_value d < 10 ^ k"
proof -
  have "digit_value d < 10 ^ length d" using assms(1) by (rule digit_value_lt)
  also have "(10::nat) ^ length d \<le> 10 ^ k" using assms(2) by (simp add: power_increasing)
  finally show ?thesis .
qed

lemma parseInt_exact:
  assumes "list_all isDigit d" "d \<noteq> []" "length d \<le> 15"
  shows "parseInt d = Num (of_nat (digit_value d))"
proof -
  have "digit_value d < 10 ^ 15" using assms(1,3) by (rule digit_value_le)
  then have "digit_value d < 2 ^ 53" by simp
  then show ?thesis using assms(2) by (simp add: parseInt_def fl_nat)
qed

lemma parseInt_padEnd:
  assumes "digit_run 1 (Some 3) ms"
  shows "parseInt (padEnd ms 3 CHR ''0'') = Num (of_nat (digit_value ms * 10 ^ (3 - length ms)))"
    and "digit_value ms * 10 ^ (3 - length ms) < 1000"
proof -
  have d: "list_all isDigit ms" "ms \<noteq> []" "length ms \<le> 3"
    using assms by (auto simp: digit_run_def)
  have z: "isDigit CHR ''0''" by (simp add: isDigit_def)
  have p: "list_all isDigit (padEnd ms 3 CHR ''0'')" "padEnd ms 3 CHR ''0'' \<noteq> []"
    "length (padEnd ms 3 CHR ''0'') \<le> 15"
    using d z by (auto simp: padEnd_def list_all_iff)
  show "parseInt (padEnd ms 3 CHR ''0'') = Num (of_nat (digit_value ms * 10 ^ (3 - length ms)))"
    using parseInt_exact[OF p] by (simp add: digit_value_padEnd)
  have "list_all isDigit (padEnd ms 3 CHR ''0'')" "length (padEnd ms 3 CHR ''0'') \<le> 3"
    using d z by (auto simp: padEnd_def list_all_iff)
  then have "digit_value (padEnd ms 3 CHR ''0'') < 10 ^ 3" by (rule digit_value_le)
  then show "digit_value ms * 10 ^ (3 - length ms) < 1000" by (simp add: digit_value_padEnd)
qed

subsection \<open>The sum of whole seconds and milliseconds\<close>

text \<open>
  For whole seconds \<open>N\<close> below \<open>2 ^ j\<close> and milliseconds \<open>m\<close> below 1000, the double
  \<open>N + m / 1000\<close> of the parser is finite and differs from the rational \<open>N + m/1000\<close> by the
  two roundings of the quotient and of the sum.
\<close>

lemma seconds_plus_ms:
  assumes "N < 2 ^ j" "j \<le> 52" "m < 1000"
  shows "\<exists>v. Num (of_nat N) + Num (of_nat m) / Num 1000 = Num v \<and> 0 \<le> v
     \<and> \<bar>v - (of_nat N + of_nat m / 1000)\<bar> \<le> 2 powi (int j - 53) + 2 powi (- 53)"
proof -
  let ?f = "of_nat m / 1000 :: rat"
  have f0: "0 \<le> ?f" by simp
  have "(of_nat m :: rat) < of_nat 1000" using assms(3) by (simp only: of_nat_less_iff)
  then have f1: "?f < 1" by simp
  have fb: "\<bar>?f\<bar> \<le> 2 powi 0" using f0 f1 by simp
  obtain y where y: "fl ?f = Num y" using fl_finite[OF fb] by auto
  have ye: "\<bar>y - ?f\<bar> \<le> 2 powi (0 - 53)" using y fb by (rule fl_abs_err) simp
  have y0: "0 \<le> y" using y f0 by (rule fl_nonneg)
  have "m \<le> 999" using assms(3) by simp
  then have "(of_nat m :: rat) \<le> of_nat 999" by (simp only: of_nat_le_iff)
  then have "?f \<le> 999 / 1000" by simp
  moreover have "(2::rat) powi (0 - 53) \<le> 1 / 1000" by simp
  ultimately have y1: "y \<le> 1" using ye by linarith
  let ?x = "of_nat N + y :: rat"
  have "N + 1 \<le> 2 ^ j" using assms(1) by simp
  then have "(of_nat (N + 1) :: rat) \<le> of_nat (2 ^ j)" by (simp only: of_nat_le_iff)
  then have "(of_nat N :: rat) + 1 \<le> 2 ^ j" by simp
  then have "?x \<le> 2 ^ j" using y1 by linarith
  also have "(2::rat) ^ j = 2 powi (int j)" by (simp add: pow2_nat)
  finally have xb: "\<bar>?x\<bar> \<le> 2 powi (int j)" using y0 by simp
  have "int j \<le> 1023" using assms(2) by simp
  then obtain v where v: "fl ?x = Num v" using fl_finite[OF xb] by auto
  have ve: "\<bar>v - ?x\<bar> \<le> 2 powi (int j - 53)" using v xb by (rule fl_abs_err) simp
  have v0: "0 \<le> v" using v by (rule fl_nonneg) (use y0 in simp)
  have "Num (of_nat N) + Num (of_nat m) / Num 1000 = Num v" using y v by simp
  moreover have "\<bar>y - ?f\<bar> \<le> 2 powi (- 53)" using ye by (simp only: diff_0)
  then have "\<bar>v - (of_nat N + ?f)\<bar> \<le> 2 powi (int j - 53) + 2 powi (- 53)"
    using ve by linarith
  ultimately show ?thesis using v0 by blast
qed

lemma Num_times_nat:
  assumes "a * b < 2 ^ 53"
  shows "Num (of_nat a) * Num (of_nat b) = Num (of_nat (a * b))"
  using fl_nat[OF assms] by simp

lemma Num_plus_nat:
  assumes "a + b < 2 ^ 53"
  shows "Num (of_nat a) + Num (of_nat b) = Num (of_nat (a + b))"
  using fl_nat[OF assms] by simp

lemma whole_seconds_exact:
  assumes "A < 10 ^ 12" "B < 100" "C < 100"
  shows "Num (of_nat A) * Num 60 + Num (of_nat B) = Num (of_nat (A * 60 + B))"
    and "Num (of_nat A) * Num 3600 + Num (of_nat B) * Num 60 + Num (of_nat C) =
      Num (of_nat (A * 3600 + B * 60 + C))"
proof -
  have 1: "A * 60 < 2 ^ 53" "A * 60 + B < 2 ^ 53" using assms by simp_all
  have 2: "A * 3600 < 2 ^ 53" "B * 60 < 2 ^ 53" "A * 3600 + B * 60 < 2 ^ 53"
    "A * 3600 + B * 60 + C < 2 ^ 53" using assms by simp_all
  have "Num (of_nat A) * Num 60 = Num (of_nat (A * 60))"
    using Num_times_nat[OF 1(1)] by simp
  then show "Num (of_nat A) * Num 60 + Num (of_nat B) = Num (of_nat (A * 60 + B))"
    using Num_plus_nat[OF 1(2)] by simp
  have "Num (of_nat A) * Num 3600 = Num (of_nat (A * 3600))"
    using Num_times_nat[OF 2(1)] by simp
  moreover have "Num (of_nat B) * Num 60 = Num (of_nat (B * 60))"
    using Num_times_nat[OF 2(2)] by simp
  ultimately show "Num (of_nat A) * Num 3600 + Num (of_nat B) * Num 60 + Num (of_nat C) =
      Num (of_nat (A * 3600 + B * 60 + C))"
    using Num_plus_nat[OF 2(3)] Num_plus_nat[OF 2(4)] by simp
qed

lemmas parse_eval = parseTimeString_def trim_def isWhiteSpace_def regex_match_def minutesRe_def
  hoursRe_def decimalRe_def wholeRe_def isDigit_def Let_def parseInt_def digit_value_def
  padEnd_def replicate_numeral fl_values fl_numeral fl_0 fl_1

lemmas format_eval = formatTime_def toFixed_def fixed_digits_def nearest_def decimal.simps
  digit_char_def Let_def floor_rat_numeral replicate_numeral fl_values fl_numeral fl_0 fl_1

text \<open>
  C5. Each grammar is converted by positional arithmetic, in the arithmetic of doubles:
  for runs of digits \<open>a\<close> (one or more), \<open>b\<close> and \<open>c\<close> (one or two) and \<open>ms\<close> (one to
  three), \<open>a:b.ms\<close> is \<open>a * 60 + b + ms'/1000\<close>, \<open>a:b:c.ms\<close> is
  \<open>a * 3600 + b * 60 + c + ms'/1000\<close>, \<open>a.ms\<close> is \<open>a + ms'/1000\<close> and \<open>a\<close> is \<open>a\<close>. A run is
  read in base ten (\<open>digit_value\<close> inverts the decimal notation) and rounded to a double,
  and \<open>ms'\<close> is \<open>ms\<close> padded on the right with zeros to three digits, that is
  \<open>ms * 10 ^ (3 - length ms)\<close>. No component is checked against a range. When \<open>a\<close> has at
  most 12 digits the whole seconds are exact, so that the result is the double sum of the
  integer \<open>a * 3600 + b * 60 + c\<close> and of the double quotient \<open>ms'/1000\<close>. In particular
  \<open>1:05.123\<close> is 65.123, \<open>60:00.000\<close> is 3600, \<open>1:99.000\<close> is 159 and \<open>1:05.1\<close> is 65.1 (the
  doubles these literals denote); the sum is rounded where the literal is not: \<open>20.548\<close> is
  parsed to the double sum of 20 and 0.548, the double next above 20.548, and a run of
  digits is rounded as well: \<open>9007199254740993\<close> is parsed to 9007199254740992.
\<close>

theorem parseTimeString_positional:
  assumes "digit_run 1 None a" "digit_run 1 (Some 2) b" "digit_run 1 (Some 2) c"
    "digit_run 1 (Some 3) ms"
  shows "parseTimeString (a @ '':'' @ b @ ''.'' @ ms) =
      Inr (parseInt a * Num 60 + parseInt b + parseInt (padEnd ms 3 CHR ''0'') / Num 1000)
    \<and> parseTimeString (a @ '':'' @ b @ '':'' @ c @ ''.'' @ ms) =
      Inr (parseInt a * Num 3600 + parseInt b * Num 60 + parseInt c
           + parseInt (padEnd ms 3 CHR ''0'') / Num 1000)
    \<and> parseTimeString (a @ ''.'' @ ms) =
      Inr (parseInt a + parseInt (padEnd ms 3 CHR ''0'') / Num 1000)
    \<and> parseTimeString a = Inr (parseInt a)
    \<and> parseInt a = fl (of_nat (digit_value a))
    \<and> parseInt b = Num (of_nat (digit_value b))
    \<and> parseInt c = Num (of_nat (digit_value c))
    \<and> parseInt (padEnd ms 3 CHR ''0'') = Num (of_nat (digit_value ms * 10 ^ (3 - length ms)))
    \<and> digit_value (decimal n) = n
    \<and> (length a \<le> 12 \<longrightarrow>
         parseTimeString (a @ '':'' @ b @ ''.'' @ ms) =
           Inr (Num (of_nat (digit_value a * 60 + digit_value b))
                + Num (of_nat (digit_value ms * 10 ^ (3 - length ms))) / Num 1000)
       \<and> parseTimeString (a @ '':'' @ b @ '':'' @ c @ ''.'' @ ms) =
           Inr (Num (of_nat (digit_value a * 3600 + digit_value b * 60 + digit_value c))
                + Num (of_nat (digit_value ms * 10 ^ (3 - length ms))) / Num 1000)
       \<and> parseTimeString (a @ ''.'' @ ms) =
           Inr (Num (of_nat (digit_value a))
                + Num (of_nat (digit_value ms * 10 ^ (3 - length ms))) / Num 1000)
       \<and> parseTimeString a = Inr (Num (of_nat (digit_value a))))
    \<and> parseTimeString ''1:05.123'' = Inr (fl (65123 / 1000))
    \<and> parseTimeString ''60:00.000'' = Inr (Num 3600)
    \<and> parseTimeString ''1:99.000'' = Inr (Num 159)
    \<and> parseTimeString ''1:05.1'' = Inr (fl (651 / 10))
    \<and> parseTimeString ''20.548'' = Inr (Num 20 + fl (548 / 1000))
    \<and> Num 20 + fl (548 / 1000) \<noteq> fl (20548 / 1000)
    \<and> parseTimeString ''9007199254740993'' = Inr (Num 9007199254740992)"
proof -
  have da: "list_all isDigit a" "a \<noteq> []" using assms(1) by (auto simp: digit_run_def)
  have db: "list_all isDigit b" "b \<noteq> []" "length b \<le> 2" using assms(2) by (auto simp: digit_run_def)
  have dc: "list_all isDigit c" "c \<noteq> []" "length c \<le> 2" using assms(3) by (auto simp: digit_run_def)
  have 1: "parseTimeString (a @ '':'' @ b @ ''.'' @ ms) =
      Inr (parseInt a * Num 60 + parseInt b + parseInt (padEnd ms 3 CHR ''0'') / Num 1000)"
    using parse_minutes[OF assms(1,2,4)] .
  have 2: "parseTimeString (a @ '':'' @ b @ '':'' @ c @ ''.'' @ ms) =
      Inr (parseInt a * Num 3600 + parseInt b * Num 60 + parseInt c
           + parseInt (padEnd ms 3 CHR ''0'') / Num 1000)"
    using parse_hours[OF assms] .
  have 3: "parseTimeString (a @ ''.'' @ ms) =
      Inr (parseInt a + parseInt (padEnd ms 3 CHR ''0'') / Num 1000)"
    using parse_decimal[OF assms(1,4)] .
  have 4: "parseTimeString a = Inr (parseInt a)"
    using parse_whole[OF assms(1)] .
  have pa: "parseInt a = fl (of_nat (digit_value a))" using da(2) by (simp add: parseInt_def)
  have pb: "parseInt b = Num (of_nat (digit_value b))"
    using db by (intro parseInt_exact) simp_all
  have pc: "parseInt c = Num (of_nat (digit_value c))"
    using dc by (intro parseInt_exact) simp_all
  have pm: "parseInt (padEnd ms 3 CHR ''0'') = Num (of_nat (digit_value ms * 10 ^ (3 - length ms)))"
    using parseInt_padEnd(1)[OF assms(4)] .
  have lb: "digit_value b < 100" using digit_value_le[OF db(1,3)] by simp
  have lc: "digit_value c < 100" using digit_value_le[OF dc(1,3)] by simp
  have ex: "length a \<le> 12 \<longrightarrow>
         parseTimeString (a @ '':'' @ b @ ''.'' @ ms) =
           Inr (Num (of_nat (digit_value a * 60 + digit_value b))
                + Num (of_nat (digit_value ms * 10 ^ (3 - length ms))) / Num 1000)
       \<and> parseTimeString (a @ '':'' @ b @ '':'' @ c @ ''.'' @ ms) =
           Inr (Num (of_nat (digit_value a * 3600 + digit_value b * 60 + digit_value c))
                + Num (of_nat (digit_value ms * 10 ^ (3 - length ms))) / Num 1000)
       \<and> parseTimeString (a @ ''.'' @ ms) =
           Inr (Num (of_nat (digit_value a))
                + Num (of_nat (digit_value ms * 10 ^ (3 - length ms))) / Num 1000)
       \<and> parseTimeString a = Inr (Num (of_nat (digit_value a)))"
  proof
    assume l: "length a \<le> 12"
    have la: "digit_value a < 10 ^ 12" using da(1) l by (rule digit_value_le)
    have pa': "parseInt a = Num (of_nat (digit_value a))"
      using da l by (intro parseInt_exact) simp_all
    show "parseTimeString (a @ '':'' @ b @ ''.'' @ ms) =
           Inr (Num (of_nat (digit_value a * 60 + digit_value b))
                + Num (of_nat (digit_value ms * 10 ^ (3 - length ms))) / Num 1000)
       \<and> parseTimeString (a @ '':'' @ b @ '':'' @ c @ ''.'' @ ms) =
           Inr (Num (of_nat (digit_value a * 3600 + digit_value b * 60 + digit_value c))
                + Num (of_nat (digit_value ms * 10 ^ (3 - length ms))) / Num 1000)
       \<and> parseTimeString (a @ ''.'' @ ms) =
           Inr (Num (of_nat (digit_value a))
                + Num (of_nat (digit_value ms * 10 ^ (3 - length ms))) / Num 1000)
       \<and> parseTimeString a = Inr (Num (of_nat (digit_value a)))"
      unfolding 1 2 3 4 pa' pb pc pm whole_seconds_exact[OF la lb lc] by simp
  qed
  have 5: "parseTimeString ''1:05.123'' = Inr (fl (65123 / 1000))" by (simp add: parse_eval)
  have 6: "parseTimeString ''60:00.000'' = Inr (Num 3600)" by (simp add: parse_eval)
  have 7: "parseTimeString ''1:99.000'' = Inr (Num 159)" by (simp add: parse_eval)
  have 8: "parseTimeString ''1:05.1'' = Inr (fl (651 / 10))" by (simp add: parse_eval)
  have 9: "parseTimeString ''20.548'' = Inr (Num 20 + fl (548 / 1000))" by (simp add: parse_eval)
  have 10: "Num 20 + fl (548 / 1000) \<noteq> fl (20548 / 1000)" by (simp add: fl_values)
  have 11: "parseTimeString ''9007199254740993'' = Inr (Num 9007199254740992)"
    by (simp add: parse_eval)
  show ?thesis using 1 2 3 4 pa pb pc pm digit_value_decimal[of n] ex 5 6 7 8 9 10 11
    by (simp only: simp_thms)
qed

theorem parseTimeString_positional_witness:
  "digit_run 1 None ''10'' \<and> digit_run 1 (Some 2) ''45'' \<and> digit_run 1 (Some 2) ''7''
   \<and> digit_run 1 (Some 3) ''5'' \<and> length ''10'' \<le> 12
   \<and> parseTimeString ''10:45.5'' = Inr (Num (6455 / 10))
   \<and> parseTimeString ''10:45:7.5'' = Inr (Num (387075 / 10))
   \<and> parseTimeString ''10.5'' = Inr (Num (105 / 10))
   \<and> parseTimeString ''10'' = Inr (Num 10)"
  using parseTimeString_positional[of "''10''" "''45''" "''7''" "''5''" 0]
  by (simp add: digit_run_def isDigit_def parseInt_def digit_value_def fl_values fl_numeral)

lemma parse_empty: "trim t = [] \<Longrightarrow> parseTimeString t = Inl (Error ''Time string cannot be empty'')"
  by (simp add: parseTimeString_def)

lemma parse_nonempty:
  assumes "trim t \<noteq> []"
  shows "parseTimeString t = Inl (Error (''Invalid time format: '' @ t)) \<or> \<not> isl (parseTimeString t)"
proof -
  have t: "t \<noteq> []" using assms trim_Nil by auto
  show ?thesis
    unfolding parseTimeString_def Let_def using assms t
    by (simp split: option.splits)
qed

text \<open>
  C6. \<open>parseTimeString\<close> fails exactly when the trimmed input is empty (a first message)
  or is not a string of one of the four grammars (a second message, quoting the input);
  an input it accepts consists, once trimmed, of digits, colons and dots only, so that
  partial matches, inner white space, further separators and characters before or after
  a time are rejected.
\<close>

theorem parseTimeString_fails_iff:
  "(isl (parseTimeString t) \<longleftrightarrow>
      trim t = [] \<or> \<not> (grammar_minutes (trim t) \<or> grammar_hours (trim t)
        \<or> grammar_decimal (trim t) \<or> grammar_whole (trim t)))
   \<and> (parseTimeString t = Inl (Error ''Time string cannot be empty'') \<longleftrightarrow> trim t = [])
   \<and> (parseTimeString t = Inl (Error (''Invalid time format: '' @ t)) \<longleftrightarrow>
        trim t \<noteq> [] \<and> \<not> (grammar_minutes (trim t) \<or> grammar_hours (trim t)
        \<or> grammar_decimal (trim t) \<or> grammar_whole (trim t)))
   \<and> (\<not> isl (parseTimeString t) \<longrightarrow> set (trim t) \<subseteq> set ''0123456789:.'')
   \<and> isl (parseTimeString ''1:05.123x'') \<and> isl (parseTimeString ''x1:05.123'')
   \<and> isl (parseTimeString ''1: 05.123'') \<and> isl (parseTimeString ''1:2:3:4'')
   \<and> isl (parseTimeString ''1.2.3'') \<and> isl (parseTimeString ''12.'')
   \<and> isl (parseTimeString ''1:005.123'') \<and> isl (parseTimeString ''1.1234'')"
proof -
  let ?g = "grammar_minutes (trim t) \<or> grammar_hours (trim t)
        \<or> grammar_decimal (trim t) \<or> grammar_whole (trim t)"
  have a: "isl (parseTimeString t) \<longleftrightarrow> trim t = [] \<or> \<not> ?g" by (rule parse_fails_iff)
  have ne: "Error ''Time string cannot be empty'' \<noteq> Error (''Invalid time format: '' @ t)"
    by simp
  have b: "parseTimeString t = Inl (Error ''Time string cannot be empty'') \<longleftrightarrow> trim t = []"
  proof
    assume l: "parseTimeString t = Inl (Error ''Time string cannot be empty'')"
    show "trim t = []"
    proof (rule ccontr)
      assume "trim t \<noteq> []"
      from parse_nonempty[OF this] l ne show False by simp
    qed
  next
    assume "trim t = []"
    then show "parseTimeString t = Inl (Error ''Time string cannot be empty'')"
      by (rule parse_empty)
  qed
  have c: "parseTimeString t = Inl (Error (''Invalid time format: '' @ t)) \<longleftrightarrow>
        trim t \<noteq> [] \<and> \<not> ?g"
  proof
    assume l: "parseTimeString t = Inl (Error (''Invalid time format: '' @ t))"
    then have "trim t \<noteq> []" using b ne by auto
    moreover have "isl (parseTimeString t)" using l by simp
    ultimately show "trim t \<noteq> [] \<and> \<not> ?g" using a by blast
  next
    assume r: "trim t \<noteq> [] \<and> \<not> ?g"
    then have "isl (parseTimeString t)" using a by blast
    then show "parseTimeString t = Inl (Error (''Invalid time format: '' @ t))"
      using parse_nonempty[of t] r by blast
  qed
  have d: "\<not> isl (parseTimeString t) \<longrightarrow> set (trim t) \<subseteq> set ''0123456789:.''"
  proof
    define A where "A = set ''0123456789:.''"
    define colon where "colon = '':''"
    define dot where "dot = ''.''"
    have in_set: "\<And>x. isDigit x \<Longrightarrow> x \<in> A"
      unfolding isDigit_def A_def by simp blast
    have sub: "\<And>d. list_all isDigit d \<Longrightarrow> set d \<subseteq> A"
      using in_set by (meson list_all_iff subsetI)
    have sep: "set colon \<subseteq> A" "set dot \<subseteq> A"
      unfolding A_def colon_def dot_def by simp_all
    assume "\<not> isl (parseTimeString t)"
    then have ?g using a by blast
    then have "set (trim t) \<subseteq> A"
      unfolding grammar_minutes_def grammar_hours_def grammar_decimal_def grammar_whole_def
        digit_run_def colon_def[symmetric] dot_def[symmetric]
    proof (elim disjE exE conjE)
      fix m sec ms
      assume "trim t = m @ colon @ sec @ dot @ ms" "list_all isDigit m" "list_all isDigit sec"
        "list_all isDigit ms"
      then show ?thesis using sub sep by simp
    next
      fix h m sec ms
      assume "trim t = h @ colon @ m @ colon @ sec @ dot @ ms" "list_all isDigit h"
        "list_all isDigit m" "list_all isDigit sec" "list_all isDigit ms"
      then show ?thesis using sub sep by simp
    next
      fix sec ms
      assume "trim t = sec @ dot @ ms" "list_all isDigit sec" "list_all isDigit ms"
      then show ?thesis using sub sep by simp
    next
      assume "list_all isDigit (trim t)"
      then show ?thesis using sub by simp
    qed
    then show "set (trim t) \<subseteq> set ''0123456789:.''" unfolding A_def .
  qed
  have e: "isl (parseTimeString ''1:05.123x'')" "isl (parseTimeString ''x1:05.123'')"
    "isl (parseTimeString ''1: 05.123'')" "isl (parseTimeString ''1:2:3:4'')"
    "isl (parseTimeString ''1.2.3'')" "isl (parseTimeString ''12.'')"
    "isl (parseTimeString ''1:005.123'')" "isl (parseTimeString ''1.1234'')"
    by (simp_all add: parse_eval)
  show ?thesis using a b c d e by (simp only: simp_thms)
qed

theorem parseTimeString_fails_iff_witness:
  "parseTimeString '' 1:05:12.123 '' = Inr (fl (3912123 / 1000))
   \<and> trim '' 1:05:12.123 '' = ''1:05:12.123''
   \<and> (grammar_minutes ''1:05:12.123'' \<or> grammar_hours ''1:05:12.123''
        \<or> grammar_decimal ''1:05:12.123'' \<or> grammar_whole ''1:05:12.123'')
   \<and> parseTimeString ''1h2m3s'' = Inl (Error ''Invalid time format: 1h2m3s'')
   \<and> \<not> grammar_minutes ''1h2m3s'' \<and> \<not> grammar_hours ''1h2m3s''
   \<and> \<not> grammar_decimal ''1h2m3s'' \<and> \<not> grammar_whole ''1h2m3s''
   \<and> parseTimeString ''   '' = Inl (Error ''Time string cannot be empty'')"
proof -
  have 1: "parseTimeString '' 1:05:12.123 '' = Inr (fl (3912123 / 1000))" by (simp add: parse_eval)
  have 2: "trim '' 1:05:12.123 '' = ''1:05:12.123''" by (simp add: trim_def isWhiteSpace_def)
  have 3: "parseTimeString ''1h2m3s'' = Inl (Error ''Invalid time format: 1h2m3s'')"
    by (simp add: parse_eval)
  have 4: "trim ''1h2m3s'' = ''1h2m3s''" by (simp add: trim_def isWhiteSpace_def)
  have 5: "parseTimeString ''   '' = Inl (Error ''Time string cannot be empty'')"
    by (simp add: parse_eval)
  show ?thesis
    using parseTimeString_fails_iff[of "'' 1:05:12.123 ''"] parseTimeString_fails_iff[of "''1h2m3s''"]
      1 2 3 4 5
    by simp
qed

section \<open>The number a formatted string denotes\<close>

lemma isDigit_digit_char: "d < 10 \<Longrightarrow> isDigit (digit_char d)"
proof -
  assume "d < 10"
  then have "d \<in> {0, 1, 2, 3, 4, 5, 6, 7, 8, 9}" by auto
  then show ?thesis by (elim insertE emptyE) (simp_all add: digit_char_def isDigit_def)
qed

lemma decimal_digits: "list_all isDigit (decimal n) \<and> decimal n \<noteq> []"
proof (induction n rule: decimal.induct)
  case (1 n)
  show ?case
  proof (cases "n < 10")
    case True
    then show ?thesis by (subst (1 2) decimal.simps) (simp add: isDigit_digit_char)
  next
    case False
    then have "list_all isDigit (decimal (n div 10))" using 1 by simp
    moreover have "isDigit (digit_char (n mod 10))" by (simp add: isDigit_digit_char)
    ultimately show ?thesis using False by (subst (1 2) decimal.simps) simp
  qed
qed

lemma unsigned_whole:
  assumes "list_all isDigit w" "w \<noteq> []"
  shows "unsigned_number w = Some (of_nat (digit_value w))"
proof -
  have t: "takeWhile isDigit w = w" using assms(1) by (rule takeWhile_digits_end)
  have d: "dropWhile isDigit w = []" using assms(1) by (simp add: list_all_iff)
  show ?thesis unfolding unsigned_number_def Let_def t d using assms(2) by simp
qed

lemma unsigned_pointed:
  assumes "list_all isDigit w" "w \<noteq> []" "list_all isDigit r" "r \<noteq> []"
  shows "unsigned_number (w @ ''.'' @ r) =
     Some (of_nat (digit_value w) + of_nat (digit_value r) / 10 ^ length r)"
proof -
  have p: "\<not> isDigit CHR ''.''" by (simp add: isDigit_def)
  have t: "takeWhile isDigit (w @ ''.'' @ r) = w"
    using takeWhile_digits_stop[OF assms(1) p, of r] by simp
  have "dropWhile isDigit (w @ CHR ''.'' # r) = CHR ''.'' # r"
    using assms(1) p by (induction w) simp_all
  then have d: "dropWhile isDigit (w @ ''.'' @ r) = CHR ''.'' # r" by simp
  show ?thesis unfolding unsigned_number_def Let_def t d using assms(2,3,4) by simp
qed

lemma StringToNumber_unsigned:
  assumes "u \<noteq> []" "isDigit (hd u)"
  shows "StringToNumber u = map_option fl (unsigned_number u)"
proof -
  have "hd u \<noteq> CHR ''-''" using assms(2) by (auto simp: isDigit_def)
  then show ?thesis using assms(1) by (cases u) (simp_all add: StringToNumber_def)
qed

lemma StringToNumber_minus:
  "StringToNumber (CHR ''-'' # u) = map_option (\<lambda>v. fl (- v)) (unsigned_number u)"
  by (simp add: StringToNumber_def)

lemma digit_value_padded: "digit_value (replicate k CHR ''0'' @ ds) = digit_value ds"
  by (simp add: digit_value_append digit_value_zeros)

lemma take_drop_value:
  assumes "f \<le> length m"
  shows "(of_nat (digit_value (take (length m - f) m)) :: rat)
           + of_nat (digit_value (drop (length m - f) m)) / 10 ^ f = of_nat (digit_value m) / 10 ^ f"
proof -
  have "digit_value m = digit_value (take (length m - f) m @ drop (length m - f) m)" by simp
  also have "\<dots> = digit_value (take (length m - f) m) * 10 ^ f + digit_value (drop (length m - f) m)"
    using assms by (subst digit_value_append) simp
  finally show ?thesis by (simp add: field_simps)
qed

lemma unsigned_fixed_digits:
  "unsigned_number (fixed_digits n f) = Some (of_nat n / 10 ^ f)
     \<and> fixed_digits n f \<noteq> [] \<and> isDigit (hd (fixed_digits n f))"
proof -
  let ?d = "decimal n"
  have dd: "list_all isDigit ?d" "?d \<noteq> []" using decimal_digits[of n] by simp_all
  show ?thesis
  proof (cases "f = 0")
    case True
    have "fixed_digits n f = ?d" unfolding fixed_digits_def Let_def using True by simp
    moreover have "isDigit (hd ?d)" using dd by (cases ?d) simp_all
    ultimately show ?thesis using unsigned_whole[OF dd] dd(2) True
      by (simp add: digit_value_decimal)
  next
    case False
    define m where "m = (if length ?d \<le> f then replicate (f + 1 - length ?d) CHR ''0'' @ ?d else ?d)"
    have z: "isDigit CHR ''0''" by (simp add: isDigit_def)
    have md: "list_all isDigit m" unfolding m_def using dd(1) z by (simp add: list_all_iff)
    have ml: "f < length m" unfolding m_def by simp
    have mv: "digit_value m = n" unfolding m_def by (simp add: digit_value_padded digit_value_decimal)
    define w where "w = take (length m - f) m"
    define r where "r = drop (length m - f) m"
    have wl: "length w = length m - f" "length r = f" unfolding w_def r_def using ml by simp_all
    have w: "list_all isDigit w" "w \<noteq> []"
    proof -
      show "list_all isDigit w" unfolding w_def using md by (metis append_take_drop_id list_all_append)
      show "w \<noteq> []" using wl(1) ml by auto
    qed
    have r: "list_all isDigit r" "r \<noteq> []"
    proof -
      show "list_all isDigit r" unfolding r_def using md by (metis append_take_drop_id list_all_append)
      show "r \<noteq> []" using wl(2) False by auto
    qed
    have tf: "fixed_digits n f = w @ ''.'' @ r"
      unfolding fixed_digits_def Let_def w_def r_def m_def using False by simp
    have v: "(of_nat (digit_value w) :: rat) + of_nat (digit_value r) / 10 ^ f = of_nat n / 10 ^ f"
      unfolding w_def r_def using take_drop_value[of f m] ml mv by simp
    have "unsigned_number (fixed_digits n f) = Some (of_nat n / 10 ^ f)"
      unfolding tf using unsigned_pointed[OF w r] v wl(2) by simp
    moreover have "isDigit (hd (fixed_digits n f))" unfolding tf using w by (cases w) simp_all
    moreover have "fixed_digits n f \<noteq> []" unfolding tf by simp
    ultimately show ?thesis by simp
  qed
qed

lemma Number_toFixed_denotes:
  assumes "\<bar>q\<bar> < 10 ^ 21"
  shows "StringToNumber (toFixed toString (Num q) f) = Some (Number_toFixed (Num q) f)"
proof (cases "q < 0")
  case True
  have "toFixed toString (Num q) f = ''-'' @ fixed_digits (nearest f \<bar>q\<bar>) f"
    using True assms by (simp add: toFixed_def)
  then show ?thesis
    using unsigned_fixed_digits[of "nearest f \<bar>q\<bar>" f] True assms
    by (simp add: Number_toFixed_def StringToNumber_minus)
next
  case False
  have "toFixed toString (Num q) f = fixed_digits (nearest f \<bar>q\<bar>) f"
    using False assms by (simp add: toFixed_def)
  then show ?thesis
    using unsigned_fixed_digits[of "nearest f \<bar>q\<bar>" f]
      StringToNumber_unsigned[of "fixed_digits (nearest f \<bar>q\<bar>) f"] False assms
    by (simp add: Number_toFixed_def)
qed

section \<open>formatTime after parseTimeString\<close>

lemma decimal_step:
  assumes "v < 10" "0 < a"
  shows "decimal (10 * a + v) = decimal a @ [digit_char v]"
proof -
  have "\<not> 10 * a + v < 10" using assms by simp
  moreover have "(10 * a + v) div 10 = a" "(10 * a + v) mod 10 = v" using assms by simp_all
  ultimately show ?thesis by (subst decimal.simps) simp
qed

lemma decimal_small: "v < 10 \<Longrightarrow> decimal v = [digit_char v]"
  by (subst decimal.simps) simp

lemma decimal_digit_value:
  assumes "list_all isDigit ds" "ds \<noteq> []"
  shows "length (decimal (digit_value ds)) \<le> length ds
     \<and> replicate (length ds - length (decimal (digit_value ds))) CHR ''0'' @ decimal (digit_value ds) = ds"
  using assms
proof (induction ds rule: rev_induct)
  case Nil
  then show ?case by simp
next
  case (snoc c xs)
  have c: "isDigit c" using snoc.prems by simp
  let ?v = "(of_char c :: nat) - of_char CHR ''0''"
  have v: "?v < 10" using c by (rule digit_val_lt)
  have dc: "digit_char ?v = c" using c by (rule digit_char_val)
  show ?case
  proof (cases "xs = []")
    case True
    then show ?thesis using v dc by (simp add: digit_value_def decimal_small)
  next
    case False
    then have ih: "length (decimal (digit_value xs)) \<le> length xs"
      "replicate (length xs - length (decimal (digit_value xs))) CHR ''0'' @ decimal (digit_value xs) = xs"
      using snoc by simp_all
    show ?thesis
    proof (cases "digit_value xs = 0")
      case True
      have d0: "decimal 0 = ''0''" by (simp add: decimal_small digit_char_def)
      have xs: "xs = replicate (length xs) CHR ''0''"
      proof -
        have "replicate (length xs - 1) CHR ''0'' @ ''0'' = xs" using ih(2) True d0 by simp
        moreover have "replicate (length xs - 1) CHR ''0'' @ ''0'' = replicate (Suc (length xs - 1)) CHR ''0''"
          by (simp add: replicate_append_same)
        moreover have "Suc (length xs - 1) = length xs" using False by (cases xs) simp_all
        ultimately show ?thesis by metis
      qed
      have "decimal (digit_value (xs @ [c])) = [c]"
        using True v dc by (simp add: digit_value_snoc decimal_small)
      then show ?thesis using xs by simp
    next
      case False
      then have "decimal (digit_value (xs @ [c])) = decimal (digit_value xs) @ [c]"
        using v dc by (simp add: digit_value_snoc decimal_step)
      then show ?thesis using ih by simp
    qed
  qed
qed

lemma fixed_digits3:
  assumes S: "list_all isDigit S" "S \<noteq> []" "S = ''0'' \<or> hd S \<noteq> CHR ''0''"
    and M: "list_all isDigit M" "length M = 3"
  shows "fixed_digits (digit_value (S @ M)) 3 = S @ ''.'' @ M"
proof -
  let ?ds = "S @ M"
  let ?n = "digit_value ?ds"
  let ?m = "decimal ?n"
  let ?k = "length ?ds - length ?m"
  have ds: "list_all isDigit ?ds" "?ds \<noteq> []" using S M by simp_all
  have len: "length ?ds = length S + 3" using M by simp
  from decimal_digit_value[OF ds]
  have le: "length ?m \<le> length ?ds" and pad: "replicate ?k CHR ''0'' @ ?m = ?ds" by simp_all
  have k0: "?k = 0 \<or> (S = ''0'' \<and> length ?m \<le> 3)"
  proof (cases "?k = 0")
    case True
    then show ?thesis by simp
  next
    case False
    then obtain j where j: "?k = Suc j" by (cases ?k) simp_all
    have "hd ?ds = CHR ''0''" using pad unfolding j by (metis hd_append2 hd_replicate list.sel(1) replicate_Suc list.distinct(1) append_Cons)
    then have "hd S = CHR ''0''" using S(2) by simp
    then have s0: "S = ''0''" using S(3) by auto
    then have "length ?ds = 4" using M by simp
    then have "length ?m \<le> 3" using j by linarith
    then show ?thesis using s0 by simp
  qed
  let ?m' = "if length ?m \<le> 3 then replicate (3 + 1 - length ?m) CHR ''0'' @ ?m else ?m"
  have m': "?m' = ?ds"
  proof (cases "length ?m \<le> 3")
    case True
    moreover have "0 < length S" using S(2) by simp
    ultimately have "?k \<noteq> 0" using len by linarith
    then have s0: "S = ''0''" using k0 by auto
    then have "length ?ds = 4" using M by simp
    then have "?k = 3 + 1 - length ?m" by simp
    then show ?thesis using True pad by simp
  next
    case False
    then have "?k = 0" using k0 by linarith
    then show ?thesis using False pad by simp
  qed
  have "fixed_digits ?n 3 = take (length ?m' - 3) ?m' @ ''.'' @ drop (length ?m' - 3) ?m'"
    unfolding fixed_digits_def Let_def by simp
  also have "\<dots> = take (length ?ds - 3) ?ds @ ''.'' @ drop (length ?ds - 3) ?ds"
    unfolding m' ..
  also have "\<dots> = S @ ''.'' @ M" using M by simp
  finally show ?thesis .
qed

text \<open>
  C7 (as amended). For a string \<open>S.mmm\<close> of the decimal-seconds grammar in which \<open>mmm\<close> has
  exactly three digits and \<open>S\<close> is written without a superfluous leading zero (\<open>S\<close> is
  \<open>0\<close> or does not begin with \<open>0\<close>) in at most 12 digits, formatting the parsed value gives
  the string back. With at most 12 digits the whole seconds are below \<open>2 ^ 40\<close>, and the
  two roundings of the parser move the value by at most \<open>2 ^ (-13) + 2 ^ (-53)\<close>, less
  than the half of a thousandth that \<open>toFixed\<close> tolerates.
\<close>

theorem format_parse_roundtrip:
  assumes S: "list_all isDigit S" "S \<noteq> []" "S = ''0'' \<or> hd S \<noteq> CHR ''0''" "length S \<le> 12"
    and M: "list_all isDigit M" "length M = 3"
  shows "\<exists>v. parseTimeString (S @ ''.'' @ M) = Inr v
     \<and> formatTime toString v = Inr (S @ ''.'' @ M)"
proof -
  let ?N = "digit_value S"
  let ?m = "digit_value M"
  have r1: "digit_run 1 None S" using S by (cases S) (simp_all add: digit_run_def)
  have r2: "digit_run 1 (Some 3) M" using M by (simp add: digit_run_def)
  have pS: "parseInt S = Num (of_nat ?N)" using S by (intro parseInt_exact) simp_all
  have pM: "parseInt (padEnd M 3 CHR ''0'') = Num (of_nat ?m)"
    and m: "?m < 1000"
    using parseInt_padEnd[OF r2] M(2) by simp_all
  have "?N < 10 ^ 12" using S(1,4) by (rule digit_value_le)
  then have N: "?N < 2 ^ 40" by simp
  from seconds_plus_ms[OF N _ m]
  obtain v where v: "Num (of_nat ?N) + Num (of_nat ?m) / Num 1000 = Num v" and v0: "0 \<le> v"
    and ve: "\<bar>v - (of_nat ?N + of_nat ?m / 1000)\<bar> \<le> 2 powi (int 40 - 53) + 2 powi (- 53)"
    by auto
  have p: "parseTimeString (S @ ''.'' @ M) = Inr (Num v)"
    unfolding parse_decimal[OF r1 r2] pS pM v ..
  have "(2::rat) powi (int 40 - 53) + 2 powi (- 53) < 1 / 2000" by simp
  then have e: "\<bar>v - (of_nat ?N + of_nat ?m / 1000)\<bar> < 1 / 2000" using ve by linarith
  have dv: "digit_value (S @ M) = ?N * 1000 + ?m" using M(2) by (simp add: digit_value_append)
  have "\<bar>v * 10 ^ 3 - of_nat (digit_value (S @ M))\<bar> = \<bar>v - (of_nat ?N + of_nat ?m / 1000)\<bar> * 1000"
    unfolding dv by (simp add: abs_if field_simps)
  also have "\<dots> < 1 / 2" using e by simp
  finally have n: "nearest 3 v = digit_value (S @ M)" by (rule nearest_eqI)
  have "(of_nat ?N :: rat) < of_nat (10 ^ 12)" using \<open>?N < 10 ^ 12\<close> by (simp only: of_nat_less_iff)
  then have bN: "(of_nat ?N :: rat) < 1000000000000" by simp
  have "(of_nat ?m :: rat) < of_nat 1000" using m by (simp only: of_nat_less_iff)
  then have bm: "(of_nat ?m :: rat) / 1000 < 1" by simp
  have "v < 1000000000002" using e bN bm by linarith
  then have big: "\<not> 10 ^ 21 \<le> \<bar>v\<bar>" using v0 by simp
  have "toFixed toString (Num v) 3 = fixed_digits (digit_value (S @ M)) 3"
    using v0 big n by (simp add: toFixed_def)
  also have "\<dots> = S @ ''.'' @ M" using S(1,2,3) M by (rule fixed_digits3)
  finally have "formatTime toString (Num v) = Inr (S @ ''.'' @ M)"
    using v0 by (simp add: formatTime_def)
  then show ?thesis using p by blast
qed

theorem format_parse_roundtrip_witness:
  "list_all isDigit ''65'' \<and> ''65'' \<noteq> [] \<and> hd ''65'' \<noteq> CHR ''0'' \<and> length ''65'' \<le> 12
   \<and> list_all isDigit ''123'' \<and> length ''123'' = 3
   \<and> (\<exists>v. parseTimeString ''65.123'' = Inr v \<and> formatTime no_toString v = Inr ''65.123'')"
  using format_parse_roundtrip[of "''65''" "''123''" no_toString]
  by (simp add: isDigit_def)

text \<open>
  C7 as stated fails, in two ways. \<open>01.123\<close> is a string of the decimal-seconds grammar
  with three digits after the dot; it parses to 1.123, which is formatted as \<open>1.123\<close>.
  And \<open>9999999999999.999\<close>, with 13 digits before the dot, parses to the double
  \<open>5119999999999999 / 512\<close>, which is formatted as \<open>9999999999999.998\<close>.
\<close>

theorem format_parse_leading_zero_counterexample:
  "grammar_decimal ''01.123''
   \<and> parseTimeString ''01.123'' = Inr (fl (1123 / 1000))
   \<and> formatTime no_toString (fl (1123 / 1000)) = Inr ''1.123''
   \<and> ''1.123'' \<noteq> ''01.123''
   \<and> grammar_decimal ''9999999999999.999''
   \<and> parseTimeString ''9999999999999.999'' = Inr (Num (5119999999999999 / 512))
   \<and> formatTime no_toString (Num (5119999999999999 / 512)) = Inr ''9999999999999.998''
   \<and> ''9999999999999.998'' \<noteq> ''9999999999999.999''"
proof -
  have "digit_run 1 None ''01''" "digit_run 1 (Some 3) ''123''"
    by (simp_all add: digit_run_def isDigit_def)
  then have 1: "grammar_decimal (''01'' @ ''.'' @ ''123'')" unfolding grammar_decimal_def by blast
  have 2: "parseTimeString ''01.123'' = Inr (fl (1123 / 1000))" by (simp add: parse_eval)
  have 3: "formatTime no_toString (fl (1123 / 1000)) = Inr ''1.123''" by (simp add: format_eval)
  have "digit_run 1 None ''9999999999999''" "digit_run 1 (Some 3) ''999''"
    by (simp_all add: digit_run_def isDigit_def)
  then have 4: "grammar_decimal (''9999999999999'' @ ''.'' @ ''999'')"
    unfolding grammar_decimal_def by blast
  have 5: "parseTimeString ''9999999999999.999'' = Inr (Num (5119999999999999 / 512))"
    by (simp add: parse_eval)
  have 6: "formatTime no_toString (Num (5119999999999999 / 512)) = Inr ''9999999999999.998''"
    by (simp add: format_eval)
  show ?thesis using 1 2 3 4 5 6 by simp
qed

section \<open>Properties of validatePaxIndex\<close>

lemma validate_class_effect:
  "v_errors (validate_class c st) = v_errors st @ class_errors (seenCodes st) c"
  "v_warnings (validate_class c st) = v_warnings st @ class_warnings c"
  "v_classCount (validate_class c st) = v_classCount st + 1"
  "seenCodes (validate_class c st) = insert (code c) (seenCodes st)"
  by (simp_all add: validate_class_def class_errors_def class_warnings_def Let_def)

lemma fold_validate_class:
  "v_errors (fold validate_class cs st) = v_errors st @ errors_from (seenCodes st) cs
   \<and> v_warnings (fold validate_class cs st) = v_warnings st @ concat (map class_warnings cs)
   \<and> v_classCount (fold validate_class cs st) = v_classCount st + length cs
   \<and> seenCodes (fold validate_class cs st) = seenCodes st \<union> set (map code cs)"
proof (induction cs arbitrary: st)
  case Nil
  then show ?case by simp
next
  case (Cons c cs)
  show ?case
    by (simp add: Cons.IH[of "validate_class c st"] validate_class_effect)
qed

lemma validate_group_effect:
  "v_errors (validate_group g st) = v_errors st @
      (if group_ok g then errors_from (seenCodes st) (classes g) else [GroupMissingIdOrName g])"
  "v_warnings (validate_group g st) = v_warnings st @
      (if group_ok g then concat (map class_warnings (classes g)) else [])"
  "v_classCount (validate_group g st) = v_classCount st + (if group_ok g then length (classes g) else 0)"
  "seenCodes (validate_group g st) = seenCodes st \<union> (if group_ok g then set (map code (classes g)) else {})"
  by (simp_all add: validate_group_def group_ok_def fold_validate_class)

lemma fold_validate_group:
  "v_errors (fold validate_group gs st) = v_errors st @ group_errors_from (seenCodes st) gs
   \<and> v_warnings (fold validate_group gs st) =
        v_warnings st @ concat (map class_warnings (concat (map classes (filter group_ok gs))))
   \<and> v_classCount (fold validate_group gs st) =
        v_classCount st + length (concat (map classes (filter group_ok gs)))
   \<and> seenCodes (fold validate_group gs st) =
        seenCodes st \<union> set (map code (concat (map classes (filter group_ok gs))))"
proof (induction gs arbitrary: st)
  case Nil
  then show ?case by simp
next
  case (Cons g gs)
  show ?case
    by (simp add: Cons.IH[of "validate_group g st"] validate_group_effect Un_assoc image_Un)
qed

lemma errors_from_append:
  "errors_from S (xs @ ys) = errors_from S xs @ errors_from (S \<union> set (map code xs)) ys"
  by (induction xs arbitrary: S) simp_all

lemma count_class_errors_dup:
  "count_list (class_errors S c) (DuplicateClassCode x) = (if code c = x \<and> x \<in> S then 1 else 0)"
  by (auto simp: class_errors_def)

lemma count_errors_from_dup:
  "count_list (errors_from S cs) (DuplicateClassCode x) =
     (if x \<in> S then count_list (map code cs) x else count_list (map code cs) x - 1)"
proof (induction cs arbitrary: S)
  case Nil
  then show ?case by simp
next
  case (Cons c cs)
  show ?case by (simp add: Cons.IH count_class_errors_dup)
qed

lemma count_errors_from_missing:
  "count_list (errors_from S cs) (ClassMissingCodeOrName c) =
     (if code c = [] \<or> name c = [] then count_list cs c else 0)"
  by (induction cs arbitrary: S) (auto simp: class_errors_def)

lemma count_errors_from_pax:
  "count_list (errors_from S cs) (InvalidPaxIndex k v) =
     length (filter (\<lambda>c. code c = k \<and> paxIndex c = v \<and> v \<le> 0) cs)"
  by (induction cs arbitrary: S) (auto simp: class_errors_def)

lemma count_errors_from_other:
  "count_list (errors_from S cs) (GroupMissingIdOrName g) = 0"
  by (induction cs arbitrary: S) (auto simp: class_errors_def)

lemma count_group_errors_from:
  "count_list (group_errors_from S gs) m =
     count_list (errors_from S (concat (map classes (filter group_ok gs)))) m
     + count_list (map GroupMissingIdOrName (filter (\<lambda>g. \<not> group_ok g) gs)) m"
proof (induction gs arbitrary: S)
  case Nil
  then show ?case by simp
next
  case (Cons g gs)
  show ?case
  proof (cases "group_ok g")
    case True
    then show ?thesis by (simp add: Cons.IH errors_from_append)
  next
    case False
    have "count_list (errors_from S (concat (map classes (filter group_ok gs)))) (GroupMissingIdOrName g) = 0"
      by (rule count_errors_from_other)
    then show ?thesis using False by (simp add: Cons.IH)
  qed
qed

lemma errors_from_Nil_iff:
  "errors_from S cs = [] \<longleftrightarrow>
     (\<forall>c\<in>set cs. code c \<notin> S \<and> code c \<noteq> [] \<and> name c \<noteq> [] \<and> 0 < paxIndex c)
     \<and> distinct (map code cs)"
proof (induction cs arbitrary: S)
  case Nil
  then show ?case by simp
next
  case (Cons c cs)
  have "class_errors S c = [] \<longleftrightarrow> code c \<notin> S \<and> code c \<noteq> [] \<and> name c \<noteq> [] \<and> 0 < paxIndex c"
    by (auto simp: class_errors_def)
  then show ?case by (auto simp: Cons.IH) (metis image_eqI)
qed

lemma group_errors_from_Nil_iff:
  "group_errors_from S gs = [] \<longleftrightarrow>
     (\<forall>g\<in>set gs. group_ok g) \<and> errors_from S (concat (map classes gs)) = []"
proof (induction gs arbitrary: S)
  case Nil
  then show ?case by simp
next
  case (Cons g gs)
  show ?case by (auto simp: Cons.IH errors_from_append)
qed

lemma validatePaxIndex_result:
  "errors (validatePaxIndex p) =
     header_errors p @ group_errors_from {} (classGroups p) @ lookup_errors p"
  "isValid (validatePaxIndex p) \<longleftrightarrow> errors (validatePaxIndex p) = []"
  "warnings (validatePaxIndex p) = concat (map class_warnings (checked_classes p))"
  "classCount (validatePaxIndex p) = length (checked_classes p)"
  "groupCount (validatePaxIndex p) = length (classGroups p)"
  by (simp_all add: validatePaxIndex_def Let_def fold_validate_group header_errors_def
      lookup_errors_def checked_classes_def)

lemma count_header: 
  "count_list (header_errors p) (DuplicateClassCode x) = 0"
  "count_list (header_errors p) (ClassMissingCodeOrName c) = 0"
  "count_list (header_errors p) (InvalidPaxIndex k v) = 0"
  "count_list (lookup_errors p) (DuplicateClassCode x) = 0"
  "count_list (lookup_errors p) (ClassMissingCodeOrName c) = 0"
  "count_list (lookup_errors p) (InvalidPaxIndex k v) = 0"
  by (simp_all add: header_errors_def lookup_errors_def)

lemma count_group_missing:
  "count_list (map GroupMissingIdOrName gs) (DuplicateClassCode x) = 0"
  "count_list (map GroupMissingIdOrName gs) (ClassMissingCodeOrName c) = 0"
  "count_list (map GroupMissingIdOrName gs) (InvalidPaxIndex k v) = 0"
  by (induction gs) simp_all

lemma count_errors:
  "count_list (errors (validatePaxIndex p)) (DuplicateClassCode x) =
     count_list (map code (checked_classes p)) x - 1"
  "count_list (errors (validatePaxIndex p)) (ClassMissingCodeOrName c) =
     (if code c = [] \<or> name c = [] then count_list (checked_classes p) c else 0)"
  "count_list (errors (validatePaxIndex p)) (InvalidPaxIndex k v) =
     length (filter (\<lambda>c. code c = k \<and> paxIndex c = v \<and> v \<le> 0) (checked_classes p))"
  by (simp_all add: validatePaxIndex_result count_header count_group_errors_from
      count_group_missing count_errors_from_dup count_errors_from_missing count_errors_from_pax
      checked_classes_def)

lemma class_warnings_filter:
  "concat (map class_warnings cs) =
     map (\<lambda>c. PaxOutsideTypicalRange (code c) (paxIndex c))
       (filter (\<lambda>c. paxIndex c < double_of (7 / 10) \<or> 1 < paxIndex c) cs)"
  by (induction cs) (simp_all add: class_warnings_def)

lemma all_checked: "\<forall>g\<in>set (classGroups p). group_ok g \<Longrightarrow> checked_classes p = all_classes p"
  by (simp add: checked_classes_def all_classes_def)

lemma not_ok_invalid:
  assumes "g \<in> set (classGroups p)" "\<not> group_ok g"
  shows "errors (validatePaxIndex p) \<noteq> []"
  using assms by (auto simp: validatePaxIndex_result group_errors_from_Nil_iff)

lemma isValid_iff:
  "isValid (validatePaxIndex p) \<longleftrightarrow>
     \<not> (year p = 0 \<or> year p < 2000 \<or> year p > 2100)
     \<and> indexType p \<in> {''Solo'', ''ProSolo''}
     \<and> classGroups p \<noteq> []
     \<and> (\<forall>g\<in>set (classGroups p). group_id g \<noteq> [] \<and> group_name g \<noteq> [])
     \<and> (\<forall>c\<in>set (all_classes p). code c \<noteq> [] \<and> name c \<noteq> [] \<and> 0 < paxIndex c)
     \<and> distinct (map code (all_classes p))
     \<and> length (Object_keys (classesByCode p)) = length (all_classes p)"
proof (cases "\<forall>g\<in>set (classGroups p). group_ok g")
  case True
  have h: "header_errors p = [] \<longleftrightarrow> \<not> (year p = 0 \<or> year p < 2000 \<or> year p > 2100)
     \<and> indexType p \<in> {''Solo'', ''ProSolo''} \<and> classGroups p \<noteq> []"
    by (auto simp: header_errors_def)
  have l: "lookup_errors p = [] \<longleftrightarrow> length (Object_keys (classesByCode p)) = length (all_classes p)"
    by (simp add: lookup_errors_def all_checked[OF True])
  have g: "group_errors_from {} (classGroups p) = [] \<longleftrightarrow>
      (\<forall>c\<in>set (all_classes p). code c \<noteq> [] \<and> name c \<noteq> [] \<and> 0 < paxIndex c)
      \<and> distinct (map code (all_classes p))"
    using True by (simp add: group_errors_from_Nil_iff errors_from_Nil_iff all_classes_def)
  have ok: "(\<forall>g\<in>set (classGroups p). group_id g \<noteq> [] \<and> group_name g \<noteq> [])"
    using True by (simp add: group_ok_def)
  show ?thesis
    unfolding validatePaxIndex_result using h l g ok by simp
next
  case False
  then obtain g where g: "g \<in> set (classGroups p)" "\<not> group_ok g" by blast
  have "\<not> isValid (validatePaxIndex p)"
    using not_ok_invalid[OF g] by (simp add: validatePaxIndex_result(2))
  moreover have "\<not> (\<forall>g\<in>set (classGroups p). group_id g \<noteq> [] \<and> group_name g \<noteq> [])"
    using g by (auto simp: group_ok_def)
  ultimately show ?thesis by blast
qed

lemmas validate_eval = validatePaxIndex_def validate_group_def validate_class_def Object_keys_def
  Let_def solo_index_def streetGroup_def duplicateGroup_def unnamedGroup_def mockSoloClass_def
  mockASClass_def double_of_def fl_values

lemmas classes_eval = checked_classes_def all_classes_def group_ok_def solo_index_def
  streetGroup_def duplicateGroup_def unnamedGroup_def mockSoloClass_def mockASClass_def

text \<open>
  C8 (as amended). Counting the classes of the groups that have an id and a name (the
  classes of any other group are skipped: not counted, not checked, not recorded as seen),
  the errors hold one \<open>DuplicateClassCode x\<close> for each occurrence of the code \<open>x\<close> beyond
  its first, across all these groups. A code that occurs twice anywhere in the dataset
  makes the dataset invalid. A duplicate entry is counted and checked like any other
  class: \<open>classCount\<close> is the number of these classes, each class without code or name and
  each class with a non-positive index has its own error, and each class with an index
  outside [0.7, 1] its own warning.
\<close>

theorem validatePaxIndex_duplicates:
  "count_list (errors (validatePaxIndex p)) (DuplicateClassCode x) =
      count_list (map code (checked_classes p)) x - 1
   \<and> (\<not> distinct (map code (all_classes p)) \<longrightarrow> \<not> isValid (validatePaxIndex p))
   \<and> classCount (validatePaxIndex p) = length (checked_classes p)
   \<and> count_list (errors (validatePaxIndex p)) (ClassMissingCodeOrName c) =
      (if code c = [] \<or> name c = [] then count_list (checked_classes p) c else 0)
   \<and> count_list (errors (validatePaxIndex p)) (InvalidPaxIndex k v) =
      length (filter (\<lambda>c. code c = k \<and> paxIndex c = v \<and> v \<le> 0) (checked_classes p))
   \<and> warnings (validatePaxIndex p) =
      map (\<lambda>c. PaxOutsideTypicalRange (code c) (paxIndex c))
        (filter (\<lambda>c. paxIndex c < double_of (7 / 10) \<or> 1 < paxIndex c) (checked_classes p))"
proof -
  have "\<not> distinct (map code (all_classes p)) \<longrightarrow> \<not> isValid (validatePaxIndex p)"
    using isValid_iff[of p] by blast
  then show ?thesis
    using count_errors[of p] validatePaxIndex_result(3,4)[of p]
      class_warnings_filter[of "checked_classes p"]
    by simp
qed

theorem validatePaxIndex_duplicates_witness:
  "\<not> distinct (map code (all_classes duplicateIndex))
   \<and> \<not> isValid (validatePaxIndex duplicateIndex)
   \<and> map code (checked_classes duplicateIndex) = [''SS'', ''AS'', ''SS'']
   \<and> count_list (errors (validatePaxIndex duplicateIndex)) (DuplicateClassCode ''SS'') = 1
   \<and> count_list (errors (validatePaxIndex duplicateIndex)) (DuplicateClassCode ''AS'') = 0
   \<and> classCount (validatePaxIndex duplicateIndex) = 3"
proof -
  have d: "\<not> distinct (map code (all_classes duplicateIndex))"
    by (simp add: duplicateIndex_def classes_eval)
  have c: "map code (checked_classes duplicateIndex) = [''SS'', ''AS'', ''SS'']"
    by (simp add: duplicateIndex_def classes_eval)
  have l: "length (checked_classes duplicateIndex) = 3"
    by (simp add: duplicateIndex_def classes_eval)
  show ?thesis
    using validatePaxIndex_duplicates[of duplicateIndex "''SS''" mockSoloClass "''SS''" 0]
      validatePaxIndex_duplicates[of duplicateIndex "''AS''" mockSoloClass "''SS''" 0] d
    unfolding c l by simp
qed

text \<open>
  C8 as stated fails: in \<open>skippedDuplicateIndex\<close> the code \<open>SS\<close> occurs in the first group
  and again in a second group that has no id and no name; the only error is the one
  about that group, and no duplicate is reported.
\<close>

theorem skipped_group_duplicate_counterexample:
  "map code (all_classes skippedDuplicateIndex) = [''SS'', ''AS'', ''SS'']
   \<and> errors (validatePaxIndex skippedDuplicateIndex) = [GroupMissingIdOrName unnamedGroup]
   \<and> count_list (errors (validatePaxIndex skippedDuplicateIndex)) (DuplicateClassCode ''SS'') = 0"
proof -
  have 1: "map code (all_classes skippedDuplicateIndex) = [''SS'', ''AS'', ''SS'']"
    by (simp add: skippedDuplicateIndex_def classes_eval)
  have 2: "errors (validatePaxIndex skippedDuplicateIndex) = [GroupMissingIdOrName unnamedGroup]"
    by (simp add: skippedDuplicateIndex_def validate_eval)
  show ?thesis unfolding 2 using 1 by simp
qed

text \<open>
  C9 (as amended). Each class the validator checks (a class of a group with id and name) whose index
  is below 0.7 or above 1 has its warning, and the warnings are exactly these; a class
  whose index is not positive has its \<open>InvalidPaxIndex\<close> error and its warning, both.
  \<open>isValid\<close> is true exactly when there is no error, and whether there is one does not
  depend on the range [0.7, 1]: the dataset is valid exactly when the year, the index type
  and the groups are, every class has a code, a name and a positive index, no code is
  repeated and the lookup object has as many keys as there are classes. The dataset with
  the single index 1.1 is valid and has one warning.
\<close>

theorem validatePaxIndex_warnings:
  "(\<forall>c\<in>set (checked_classes p). paxIndex c < double_of (7 / 10) \<or> 1 < paxIndex c \<longrightarrow>
       PaxOutsideTypicalRange (code c) (paxIndex c) \<in> set (warnings (validatePaxIndex p)))
   \<and> (\<forall>c\<in>set (checked_classes p). paxIndex c \<le> 0 \<longrightarrow>
       InvalidPaxIndex (code c) (paxIndex c) \<in> set (errors (validatePaxIndex p))
       \<and> PaxOutsideTypicalRange (code c) (paxIndex c) \<in> set (warnings (validatePaxIndex p)))
   \<and> warnings (validatePaxIndex p) =
      map (\<lambda>c. PaxOutsideTypicalRange (code c) (paxIndex c))
        (filter (\<lambda>c. paxIndex c < double_of (7 / 10) \<or> 1 < paxIndex c) (checked_classes p))
   \<and> (isValid (validatePaxIndex p) \<longleftrightarrow> errors (validatePaxIndex p) = [])
   \<and> (isValid (validatePaxIndex p) \<longleftrightarrow>
       \<not> (year p = 0 \<or> year p < 2000 \<or> year p > 2100)
       \<and> indexType p \<in> {''Solo'', ''ProSolo''}
       \<and> classGroups p \<noteq> []
       \<and> (\<forall>g\<in>set (classGroups p). group_id g \<noteq> [] \<and> group_name g \<noteq> [])
       \<and> (\<forall>c\<in>set (all_classes p). code c \<noteq> [] \<and> name c \<noteq> [] \<and> 0 < paxIndex c)
       \<and> distinct (map code (all_classes p))
       \<and> length (Object_keys (classesByCode p)) = length (all_classes p))
   \<and> isValid (validatePaxIndex warningIndex)
   \<and> warnings (validatePaxIndex warningIndex) = [PaxOutsideTypicalRange ''EXTREME'' (double_of (11 / 10))]"
proof -
  let ?r = "validatePaxIndex p"
  have w: "warnings ?r = map (\<lambda>c. PaxOutsideTypicalRange (code c) (paxIndex c))
        (filter (\<lambda>c. paxIndex c < double_of (7 / 10) \<or> 1 < paxIndex c) (checked_classes p))"
    using validatePaxIndex_result(3)[of p] class_warnings_filter[of "checked_classes p"] by simp
  have a: "\<forall>c\<in>set (checked_classes p). paxIndex c < double_of (7 / 10) \<or> 1 < paxIndex c \<longrightarrow>
       PaxOutsideTypicalRange (code c) (paxIndex c) \<in> set (warnings ?r)"
    unfolding w by auto
  have b: "\<forall>c\<in>set (checked_classes p). paxIndex c \<le> 0 \<longrightarrow>
       InvalidPaxIndex (code c) (paxIndex c) \<in> set (errors ?r)
       \<and> PaxOutsideTypicalRange (code c) (paxIndex c) \<in> set (warnings ?r)"
  proof (intro ballI impI conjI)
    fix c assume c: "c \<in> set (checked_classes p)" "paxIndex c \<le> 0"
    then have "c \<in> set (filter (\<lambda>c'. code c' = code c \<and> paxIndex c' = paxIndex c \<and> paxIndex c \<le> 0)
        (checked_classes p))" by simp
    then have "0 < length (filter (\<lambda>c'. code c' = code c \<and> paxIndex c' = paxIndex c \<and> paxIndex c \<le> 0)
        (checked_classes p))" by (metis length_pos_if_in_set)
    then have "0 < count_list (errors ?r) (InvalidPaxIndex (code c) (paxIndex c))"
      using count_errors(3)[of p "code c" "paxIndex c"] by simp
    then show "InvalidPaxIndex (code c) (paxIndex c) \<in> set (errors ?r)"
      using count_list_0_iff[of "errors ?r" "InvalidPaxIndex (code c) (paxIndex c)"] by auto
    have "0 < double_of (7 / 10)" by (simp add: double_of_def fl_values)
    then have "paxIndex c < double_of (7 / 10)" using c(2) by simp
    then show "PaxOutsideTypicalRange (code c) (paxIndex c) \<in> set (warnings ?r)"
      using a c(1) by blast
  qed
  have v: "isValid ?r \<longleftrightarrow> errors ?r = []" by (rule validatePaxIndex_result(2))
  have e: "validatePaxIndex warningIndex =
    \<lparr> isValid = True, errors = [], warnings = [PaxOutsideTypicalRange ''EXTREME'' (double_of (11 / 10))],
      classCount = 1, groupCount = 1 \<rparr>"
    by (simp add: warningIndex_def validate_eval)
  have e1: "isValid (validatePaxIndex warningIndex)"
    and e2: "warnings (validatePaxIndex warningIndex) = [PaxOutsideTypicalRange ''EXTREME'' (double_of (11 / 10))]"
    unfolding e by simp_all
  show ?thesis
    using a b w v isValid_iff[of p] e1 e2 by (simp only: simp_thms)
qed

theorem validatePaxIndex_warnings_witness:
  "checked_classes negativeIndex =
      [\<lparr> code = ''NEG'', name = ''Negative Class'', paxIndex = - (5 / 10), isActive = True \<rparr>]
   \<and> InvalidPaxIndex ''NEG'' (- (5 / 10)) \<in> set (errors (validatePaxIndex negativeIndex))
   \<and> PaxOutsideTypicalRange ''NEG'' (- (5 / 10)) \<in> set (warnings (validatePaxIndex negativeIndex))
   \<and> errors (validatePaxIndex negativeIndex) \<noteq> []
   \<and> \<not> isValid (validatePaxIndex negativeIndex)"
proof -
  have c: "checked_classes negativeIndex =
      [\<lparr> code = ''NEG'', name = ''Negative Class'', paxIndex = - (5 / 10), isActive = True \<rparr>]"
    by (simp add: negativeIndex_def classes_eval)
  have a: "all_classes negativeIndex = checked_classes negativeIndex"
    by (simp add: negativeIndex_def classes_eval)
  have i: "InvalidPaxIndex ''NEG'' (- (5 / 10)) \<in> set (errors (validatePaxIndex negativeIndex))"
    and w: "PaxOutsideTypicalRange ''NEG'' (- (5 / 10)) \<in> set (warnings (validatePaxIndex negativeIndex))"
    and v: "isValid (validatePaxIndex negativeIndex) \<longleftrightarrow> errors (validatePaxIndex negativeIndex) = []"
    using validatePaxIndex_warnings[of negativeIndex] unfolding a c
    by (simp_all add: double_of_def fl_values)
  have n: "errors (validatePaxIndex negativeIndex) \<noteq> []"
  proof
    assume "errors (validatePaxIndex negativeIndex) = []"
    then show False using i by simp
  qed
  show ?thesis using c i w v n by simp
qed

text \<open>
  C9 as stated fails: in \<open>skippedRangeIndex\<close> the classes with the indices 1.1 and -0.5
  belong to a group without id, which the validator reports and skips; there is no
  warning and no \<open>InvalidPaxIndex\<close> error, the only error being the one about the group.
\<close>

theorem skipped_group_range_counterexample:
  "map paxIndex (all_classes skippedRangeIndex) = [double_of (844 / 1000), double_of (83 / 100), double_of (11 / 10), - (5 / 10)]
   \<and> warnings (validatePaxIndex skippedRangeIndex) = []
   \<and> errors (validatePaxIndex skippedRangeIndex) = [GroupMissingIdOrName unidentifiedGroup]
   \<and> InvalidPaxIndex ''NEG'' (- (5 / 10)) \<notin> set (errors (validatePaxIndex skippedRangeIndex))"
proof -
  have 1: "map paxIndex (all_classes skippedRangeIndex) = [double_of (844 / 1000), double_of (83 / 100), double_of (11 / 10), - (5 / 10)]"
    by (simp add: skippedRangeIndex_def unidentifiedGroup_def classes_eval)
  have 2: "validatePaxIndex skippedRangeIndex =
    \<lparr> isValid = False, errors = [GroupMissingIdOrName unidentifiedGroup], warnings = [],
      classCount = 2, groupCount = 2 \<rparr>"
    by (simp add: skippedRangeIndex_def validate_eval) (simp add: unidentifiedGroup_def)
  show ?thesis unfolding 2 using 1 by simp
qed

text \<open>
  C10. The last check of the validator compares two numbers: the mismatch error is in the
  errors exactly when the number of keys of the lookup object differs from the number of
  checked classes, and replacing the lookup object by any object with as many keys
  changes nothing in the result. So there is a dataset whose lookup object has as many
  keys as there are classes, none of them the code of a class, that is valid and has no
  error: \<open>foreignKeysIndex\<close>.
\<close>

theorem lookup_check_counts_only:
  "(ClassLookupCountMismatch n m \<in> set (errors (validatePaxIndex p)) \<longleftrightarrow>
      n = length (Object_keys (classesByCode p)) \<and> m = length (checked_classes p) \<and> n \<noteq> m)
   \<and> (length (Object_keys lookup) = length (Object_keys (classesByCode p)) \<longrightarrow>
      validatePaxIndex (p\<lparr>classesByCode := lookup\<rparr>) = validatePaxIndex p)
   \<and> (\<exists>q. length (Object_keys (classesByCode q)) = length (checked_classes q)
        \<and> checked_classes q \<noteq> []
        \<and> set (Object_keys (classesByCode q)) \<inter> set (map code (all_classes q)) = {}
        \<and> errors (validatePaxIndex q) = []
        \<and> isValid (validatePaxIndex q))"
proof -
  have count0: "\<And>S cs. count_list (errors_from S cs) (ClassLookupCountMismatch n m) = 0"
  proof -
    fix S cs show "count_list (errors_from S cs) (ClassLookupCountMismatch n m) = 0"
      by (induction cs arbitrary: S) (simp_all add: class_errors_def)
  qed
  have count1: "\<And>gs. count_list (map GroupMissingIdOrName gs) (ClassLookupCountMismatch n m) = 0"
  proof -
    fix gs show "count_list (map GroupMissingIdOrName gs) (ClassLookupCountMismatch n m) = 0"
      by (induction gs) simp_all
  qed
  have "count_list (errors (validatePaxIndex p)) (ClassLookupCountMismatch n m) =
      count_list (lookup_errors p) (ClassLookupCountMismatch n m)"
    by (simp add: validatePaxIndex_result(1) count_group_errors_from count0 count1 header_errors_def)
  then have "ClassLookupCountMismatch n m \<in> set (errors (validatePaxIndex p)) \<longleftrightarrow>
      ClassLookupCountMismatch n m \<in> set (lookup_errors p)"
    using count_list_0_iff[of "errors (validatePaxIndex p)" "ClassLookupCountMismatch n m"]
      count_list_0_iff[of "lookup_errors p" "ClassLookupCountMismatch n m"] by simp
  then have 1: "ClassLookupCountMismatch n m \<in> set (errors (validatePaxIndex p)) \<longleftrightarrow>
      n = length (Object_keys (classesByCode p)) \<and> m = length (checked_classes p) \<and> n \<noteq> m"
    by (auto simp: lookup_errors_def)
  have 2: "length (Object_keys lookup) = length (Object_keys (classesByCode p)) \<longrightarrow>
      validatePaxIndex (p\<lparr>classesByCode := lookup\<rparr>) = validatePaxIndex p"
    by (simp add: validatePaxIndex_def Let_def)
  have e: "validatePaxIndex foreignKeysIndex =
    \<lparr> isValid = True, errors = [], warnings = [], classCount = 2, groupCount = 1 \<rparr>"
    by (simp add: foreignKeysIndex_def validate_eval)
  have k: "Object_keys (classesByCode foreignKeysIndex) = [''XX'', ''YY'']"
    by (simp add: foreignKeysIndex_def Object_keys_def solo_index_def)
  have c: "map code (checked_classes foreignKeysIndex) = [''SS'', ''AS'']"
    "map code (all_classes foreignKeysIndex) = [''SS'', ''AS'']"
    by (simp_all add: foreignKeysIndex_def classes_eval)
  have l: "length (checked_classes foreignKeysIndex) = 2" "checked_classes foreignKeysIndex \<noteq> []"
    using c(1) by (auto simp del: map_eq_Cons_conv)
  have "length (Object_keys (classesByCode foreignKeysIndex)) = length (checked_classes foreignKeysIndex)
        \<and> checked_classes foreignKeysIndex \<noteq> []
        \<and> set (Object_keys (classesByCode foreignKeysIndex)) \<inter> set (map code (all_classes foreignKeysIndex)) = {}
        \<and> errors (validatePaxIndex foreignKeysIndex) = []
        \<and> isValid (validatePaxIndex foreignKeysIndex)"
    unfolding e k c(2) using l by simp
  then have 3: "\<exists>q. length (Object_keys (classesByCode q)) = length (checked_classes q)
        \<and> checked_classes q \<noteq> []
        \<and> set (Object_keys (classesByCode q)) \<inter> set (map code (all_classes q)) = {}
        \<and> errors (validatePaxIndex q) = []
        \<and> isValid (validatePaxIndex q)" by (rule exI)
  show ?thesis using 1 2 3 by (simp only: simp_thms)
qed

theorem lookup_check_counts_only_witness:
  "length (Object_keys [(''SS'', mockSoloClass), (''AS'', mockASClass)]) =
      length (Object_keys (classesByCode foreignKeysIndex))
   \<and> validatePaxIndex (foreignKeysIndex\<lparr>classesByCode := [(''SS'', mockSoloClass), (''AS'', mockASClass)]\<rparr>)
      = validatePaxIndex foreignKeysIndex
   \<and> isValid (validatePaxIndex foreignKeysIndex)
   \<and> ClassLookupCountMismatch 2 2 \<notin> set (errors (validatePaxIndex foreignKeysIndex))"
proof -
  have k: "length (Object_keys [(''SS'', mockSoloClass), (''AS'', mockASClass)]) =
      length (Object_keys (classesByCode foreignKeysIndex))"
    by (simp add: foreignKeysIndex_def Object_keys_def solo_index_def)
  have e: "validatePaxIndex foreignKeysIndex =
    \<lparr> isValid = True, errors = [], warnings = [], classCount = 2, groupCount = 1 \<rparr>"
    by (simp add: foreignKeysIndex_def validate_eval)
  show ?thesis
    using lookup_check_counts_only[of 2 2 foreignKeysIndex "[(''SS'', mockSoloClass), (''AS'', mockASClass)]"] k
    unfolding e by simp
qed

end
